theory Spec2Isabelle
  imports Main "HOL-Library.Word" "HOL-Library.AList"
begin

unbundle bit_operations_syntax

section \<open>Data model of rts/Game/UI/KeyBindings.cpp\<close>

subsection \<open>CKeySet (declared in KeySet.h)\<close>

datatype CKeySetType = KSScanCode | KSKeyCode

text \<open>
  Modelled from the spec: the class CKeySet is declared in KeySet.h, which is not among
  the sources. The spec (section 3) gives a key identifier (integer), a modifier bitmask
  (ctrl/alt/shift/meta bits plus a wildcard "Any" bit) and a keyspace tag; the code builds
  one with \<^verbatim>\<open>CKeySet(keyCode, modifiers, CKeySet::KSKeyCode)\<close> where modifiers is an
  unsigned char. Equality is equality of the three fields (the value is used as a map key).
\<close>

record CKeySet =
  key :: int
  modifiers :: "8 word"
  keyType :: CKeySetType

text \<open>Modelled from the spec: the modifier bits of the mask (alt, ctrl, meta, shift, Any).\<close>

definition KS_ALT :: "8 word" where "KS_ALT = 1"
definition KS_CTRL :: "8 word" where "KS_CTRL = 2"
definition KS_META :: "8 word" where "KS_META = 4"
definition KS_SHIFT :: "8 word" where "KS_SHIFT = 8"
definition KS_ANYMOD :: "8 word" where "KS_ANYMOD = 16"

text \<open>Modelled from the spec: the accessors \<^verbatim>\<open>Key()\<close>, \<^verbatim>\<open>IsKeyCode()\<close> and \<^verbatim>\<open>AnyMod()\<close>
  of CKeySet read the key identifier, the keyspace tag and the wildcard bit.\<close>

definition Key :: "CKeySet \<Rightarrow> int" where
  "Key ks = key ks"

definition IsKeyCode :: "CKeySet \<Rightarrow> bool" where
  "IsKeyCode ks = (keyType ks = KSKeyCode)"

definition AnyMod :: "CKeySet \<Rightarrow> bool" where
  "AnyMod ks = (modifiers ks AND KS_ANYMOD \<noteq> 0)"

text \<open>Modelled from the spec: \<^verbatim>\<open>SetAnyBit()\<close> turns a chord into "the wildcard-modifier
  variant of that same key identifier" (spec 4.3): the concrete modifier bits are dropped
  and the Any bit is set; key identifier and keyspace stay.\<close>

definition SetAnyBit :: "CKeySet \<Rightarrow> CKeySet" where
  "SetAnyBit ks =
     ks\<lparr>modifiers := (modifiers ks AND NOT (KS_ALT OR KS_CTRL OR KS_META OR KS_SHIFT)) OR KS_ANYMOD\<rparr>"

text \<open>A key chain is a sequence of chords; \<^verbatim>\<open>back()\<close> is the trigger chord.\<close>

type_synonym CKeyChain = "CKeySet list"

subsection \<open>Action and KeyBinding\<close>

text \<open>Modelled from the spec: Action (declared elsewhere) carries the command name, the
  trailing extra text, the normalised source line and the raw line (spec section 3).\<close>

record Action =
  command :: string
  extra :: string
  line :: string
  rawline :: string

record KeyBinding =
  action :: Action
  keyChain :: CKeyChain
  boundWith :: string
  bindingIndex :: int

type_synonym KeyBindingList = "KeyBinding list"

text \<open>
  A KeyMap maps a trigger chord to its binding list. It is kept as an association list so
  that the loops over all entries (\<^verbatim>\<open>RemoveActionFromKeyMap\<close>) can run; \<^verbatim>\<open>find\<close> is
  \<^const>\<open>map_of\<close>. A map of the program never holds a key twice.
\<close>

type_synonym KeyMap = "(CKeySet \<times> KeyBindingList) list"

text \<open>The part of CKeyBindings that the binding operations read and write. The counter
  is a C++ int; it is modelled unbounded (signed overflow would be undefined behaviour).\<close>

record CKeyBindings =
  codeBindings :: KeyMap
  scanBindings :: KeyMap
  bindingsCount :: int

section \<open>Lookup of one chord\<close>

text \<open>\<^verbatim>\<open>GetKeyBindingList(const CKeySet& ks, bool forceAny)\<close>, lines 401-418.\<close>

definition GetKeyBindingList_ks :: "CKeyBindings \<Rightarrow> CKeySet \<Rightarrow> bool \<Rightarrow> KeyBindingList" where
  "GetKeyBindingList_ks st ks forceAny =
     (if Key ks < 0 then []
      else
        let bindings = (if IsKeyCode ks then codeBindings st else scanBindings st);
            toUse = (if forceAny then SetAnyBit ks else ks)
        in (case map_of bindings toUse of Some l \<Rightarrow> l | None \<Rightarrow> []))"

section \<open>Resolution: filtering and merging candidate lists\<close>

text \<open>\<^verbatim>\<open>compareActionByTriggerOrder\<close>, lines 41-49.\<close>

definition compareActionByTriggerOrder :: "KeyBinding \<Rightarrow> KeyBinding \<Rightarrow> bool" where
  "compareActionByTriggerOrder a b =
     (let selfAnyMod = AnyMod (last (keyChain a));
          bindingAnyMod = AnyMod (last (keyChain b))
      in if selfAnyMod = bindingAnyMod then bindingIndex a < bindingIndex b
         else bindingAnyMod)"

text \<open>
  \<^verbatim>\<open>FilterByKeychain\<close>, lines 321-326. The predicate \<^verbatim>\<open>CKeyChain::fit\<close> lives in
  KeySet.cpp, which is not among the sources; it is the parameter \<open>fit\<close>, applied as
  \<open>fit kc (keyChain action)\<close> for \<^verbatim>\<open>kc.fit(action.keyChain)\<close>.
\<close>

primrec FilterByKeychain ::
  "(CKeyChain \<Rightarrow> CKeyChain \<Rightarrow> bool) \<Rightarrow> KeyBindingList \<Rightarrow> CKeyChain \<Rightarrow> KeyBindingList \<Rightarrow> KeyBindingList"
where
  "FilterByKeychain fit [] kc out = out"
| "FilterByKeychain fit (a # as) kc out =
     FilterByKeychain fit as kc (if fit kc (keyChain a) then out @ [a] else out)"

text \<open>
  The inner loop of \<^verbatim>\<open>MergeActionListsByTrigger\<close> (lines 370-383): scan the part of
  \<open>out\<close> that came from list A, positions \<open>a\<close> up to \<open>aEndId\<close>, for a binding with the
  source line of \<open>aB\<close>. The result is \<open>(toAdd, out, aEndId)\<close> after the scan. The loop is
  only run with \<open>aEndId \<le> length out\<close>, so \<open>out ! a\<close> is in range.
\<close>

function innerLoop ::
  "KeyBinding \<Rightarrow> KeyBindingList \<Rightarrow> nat \<Rightarrow> nat \<Rightarrow> bool \<times> KeyBindingList \<times> nat"
where
  "innerLoop aB out a aEndId =
     (if a < aEndId then
        (if line (action aB) = line (action (out ! a)) then
           (if bindingIndex aB \<ge> bindingIndex (out ! a) then (False, out, aEndId)
            else (True, take a out @ drop (Suc a) out, aEndId - 1))
         else innerLoop aB out (Suc a) aEndId)
      else (True, out, aEndId))"
  by pat_completeness auto
termination
  by (relation "measure (\<lambda>(aB, out, a, aEndId). aEndId - a)") auto

declare innerLoop.simps [simp del]

text \<open>The loop over list B (lines 368-385); the state is \<open>(out, aEndId)\<close>.\<close>

fun outerLoop ::
  "nat \<Rightarrow> KeyBindingList \<Rightarrow> KeyBindingList \<times> nat \<Rightarrow> KeyBindingList \<times> nat"
where
  "outerLoop aBeginId [] (out, aEndId) = (out, aEndId)"
| "outerLoop aBeginId (aB # Bs) (out, aEndId) =
     (case innerLoop aB out aBeginId aEndId of
        (toAdd, out', aEndId') \<Rightarrow>
          outerLoop aBeginId Bs (if toAdd then out' @ [aB] else out', aEndId'))"

text \<open>
  \<^verbatim>\<open>std::inplace_merge(first, middle, last, comp)\<close> of the C++ standard library: the
  stable merge of two consecutive ranges, each sorted with respect to the comparison; an element
  of the second range goes first only when the comparison puts it strictly before the element of
  the first range.
\<close>

fun inplace_merge :: "('a \<Rightarrow> 'a \<Rightarrow> bool) \<Rightarrow> 'a list \<Rightarrow> 'a list \<Rightarrow> 'a list" where
  "inplace_merge cmp [] ys = ys"
| "inplace_merge cmp xs [] = xs"
| "inplace_merge cmp (x # xs) (y # ys) =
     (if cmp y x then y # inplace_merge cmp (x # xs) ys
      else x # inplace_merge cmp xs (y # ys))"

text \<open>\<^verbatim>\<open>MergeActionListsByTrigger\<close>, lines 329-389; the result is the new \<open>out\<close>.\<close>

definition MergeActionListsByTrigger ::
  "KeyBindingList \<Rightarrow> KeyBindingList \<Rightarrow> KeyBindingList \<Rightarrow> KeyBindingList"
where
  "MergeActionListsByTrigger keyBindingListA keyBindingListB out =
     (if keyBindingListA = [] then out @ keyBindingListB
      else
        let aBeginId = length out;
            out1 = out @ keyBindingListA;
            aEndId = length out1
        in if keyBindingListB = [] then out1
           else
             (case outerLoop aBeginId keyBindingListB (out1, aEndId) of
                (out2, aEndId2) \<Rightarrow>
                  take aBeginId out2 @
                  inplace_merge compareActionByTriggerOrder
                    (take (aEndId2 - aBeginId) (drop aBeginId out2)) (drop aEndId2 out2)))"

text \<open>
  \<^verbatim>\<open>GetKeyBindingList(const CKeyChain& kc, const CKeyChain& sc)\<close>, lines 440-473.
  \<^verbatim>\<open>back()\<close> of an empty chain is undefined in C++; the model returns None there.
\<close>

definition GetKeyBindingList_chains ::
  "(CKeyChain \<Rightarrow> CKeyChain \<Rightarrow> bool) \<Rightarrow> CKeyBindings \<Rightarrow> CKeyChain \<Rightarrow> CKeyChain \<Rightarrow> KeyBindingList option"
where
  "GetKeyBindingList_chains fit st kc sc =
     (if kc = [] \<or> sc = [] then None
      else
        let kList = (if \<not> AnyMod (last kc)
                     then FilterByKeychain fit (GetKeyBindingList_ks st (last kc) False) kc []
                     else []);
            sList = (if \<not> AnyMod (last sc)
                     then FilterByKeychain fit (GetKeyBindingList_ks st (last sc) False) sc []
                     else []);
            merged = MergeActionListsByTrigger kList sList [];
            kListAny = FilterByKeychain fit (GetKeyBindingList_ks st (last kc) True) kc [];
            sListAny = FilterByKeychain fit (GetKeyBindingList_ks st (last sc) True) sc []
        in Some (MergeActionListsByTrigger kListAny sListAny merged))"

text \<open>\<^verbatim>\<open>GetKeyBindingList(int keyCode, int scanCode, unsigned char modifiers)\<close>,
  lines 482-491: two chains of one chord each.\<close>

definition GetKeyBindingList_codes ::
  "(CKeyChain \<Rightarrow> CKeyChain \<Rightarrow> bool) \<Rightarrow> CKeyBindings \<Rightarrow> int \<Rightarrow> int \<Rightarrow> 8 word \<Rightarrow> KeyBindingList option"
where
  "GetKeyBindingList_codes fit st keyCode scanCode mods =
     GetKeyBindingList_chains fit st
       [\<lparr>key = keyCode, modifiers = mods, keyType = KSKeyCode\<rparr>]
       [\<lparr>key = scanCode, modifiers = mods, keyType = KSScanCode\<rparr>]"

section \<open>Parsing a shortcut text into a key chain\<close>

text \<open>
  \<^verbatim>\<open>ParseSingleChain\<close>, lines 546-566. \<^verbatim>\<open>CKeySet::Parse\<close> is in KeySet.cpp, which is
  not among the sources; it is the parameter \<open>parseKS\<close>, giving the chord read from one
  token, or None where Parse returns false.

  \<^verbatim>\<open>ss.getline(kcstr, 256, ',')\<close> reads up to the next comma (which it consumes) or the
  end of the text, and at most 255 characters: when 255 characters are read and the next
  one is neither the end nor a comma, the stream fails and the loop ends after this token.
  After a consumed comma the stream is still good, so a text ending in a comma gives one
  more, empty, token. \<^verbatim>\<open>std::string kstr(kcstr)\<close> stops at a NUL character.
\<close>

definition notComma :: "char \<Rightarrow> bool" where
  "notComma c = (c \<noteq> CHR '','')"

definition cstring :: "string \<Rightarrow> string" where
  "cstring s = takeWhile (\<lambda>c. c \<noteq> CHR 0x00) s"

function ParseSingleChain ::
  "(string \<Rightarrow> CKeySet option) \<Rightarrow> string \<Rightarrow> CKeyChain \<Rightarrow> CKeyChain option"
where
  "ParseSingleChain parseKS s kc =
     (if length (takeWhile notComma s) \<le> 255 then
        (case parseKS (cstring (takeWhile notComma s)) of
           None \<Rightarrow> None
         | Some ks \<Rightarrow>
             (case dropWhile notComma s of
                [] \<Rightarrow> Some (kc @ [ks])
              | c # rest \<Rightarrow> ParseSingleChain parseKS rest (kc @ [ks])))
      else
        (case parseKS (cstring (take 255 s)) of
           None \<Rightarrow> None
         | Some ks \<Rightarrow> Some (kc @ [ks])))"
  by pat_completeness auto
termination
proof (relation "measure (\<lambda>(parseKS, s, kc). length s)")
  show "wf (measure (\<lambda>(parseKS, s, kc). length s))"
    by simp
next
  fix parseKS :: "string \<Rightarrow> CKeySet option" and s :: string and kc :: CKeyChain
    and ks c rest
  assume "dropWhile notComma s = c # rest"
  then have "length (c # rest) \<le> length s"
    by (metis length_dropWhile_le)
  then show "((parseKS, rest, kc @ [ks]), (parseKS, s, kc)) \<in> measure (\<lambda>(parseKS, s, kc). length s)"
    by simp
qed

declare ParseSingleChain.simps [simp del]

text \<open>
  \<^verbatim>\<open>keystr.rfind(',', pos)\<close>: the last comma at an index not above \<open>pos\<close>; the position
  \<^verbatim>\<open>std::string::npos\<close> is None, both as argument (search the whole text) and as result
  (no comma found).
\<close>

definition rfind_comma :: "string \<Rightarrow> nat option \<Rightarrow> nat option" where
  "rfind_comma s pos =
     (let n = (case pos of None \<Rightarrow> length s | Some p \<Rightarrow> min (Suc p) (length s));
          found = filter (\<lambda>i. s ! i = CHR '','') [0..<n]
      in if found = [] then None else Some (last found))"

text \<open>
  \<^verbatim>\<open>IntToString(keyCodes.GetCode(","), "%#x")\<close>: the key-code table is not among the
  sources; the comment of ParseKeyChain gives the text, \<^verbatim>\<open>",,," will at the end parsed
  as "0x2c,0x2c"\<close>.
\<close>

definition commaHex :: string where
  "commaHex = ''0x2c''"

text \<open>\<^verbatim>\<open>keystr.replace(cpos, 1, ...)\<close>\<close>

definition replaceComma :: "string \<Rightarrow> nat \<Rightarrow> string" where
  "replaceComma s cpos = take cpos s @ commaHex @ drop (Suc cpos) s"

text \<open>The end of the range that rfind searches, and the comma positions below a bound;
  they measure what is left of the search of ParseKeyChain.\<close>

definition searchEnd :: "string \<Rightarrow> nat option \<Rightarrow> nat" where
  "searchEnd s pos = (case pos of None \<Rightarrow> length s | Some p \<Rightarrow> min (Suc p) (length s))"

definition commasBelow :: "string \<Rightarrow> nat \<Rightarrow> nat set" where
  "commasBelow s n = {i. i < n \<and> i < length s \<and> s ! i = CHR '',''}"

lemma sorted_le_last: "sorted xs \<Longrightarrow> (x::nat) \<in> set xs \<Longrightarrow> x \<le> last xs"
  by (induction xs) auto

lemma rfind_comma_Some:
  assumes "rfind_comma s pos = Some c"
  shows "c < searchEnd s pos \<and> c < length s \<and> s ! c = CHR '','' \<and> (\<forall>i. c < i \<and> i < searchEnd s pos \<longrightarrow> s ! i \<noteq> CHR '','')"
proof -
  let ?n = "searchEnd s pos"
  let ?f = "filter (\<lambda>i. s ! i = CHR '','') [0..<?n]"
  from assms have ne: "?f \<noteq> []" and c: "c = last ?f"
    by (auto simp: rfind_comma_def searchEnd_def Let_def split: if_splits)
  from ne have "last ?f \<in> set ?f" by (rule last_in_set)
  with c have 1: "c < ?n" "s ! c = CHR '',''" by auto
  have le: "?n \<le> length s" by (auto simp: searchEnd_def split: option.splits)
  have "sorted ?f" by (simp add: sorted_wrt_filter)
  have 2: "\<forall>i. c < i \<and> i < ?n \<longrightarrow> s ! i \<noteq> CHR '',''"
  proof (intro allI impI notI)
    fix i assume "c < i \<and> i < ?n" and "s ! i = CHR '',''"
    then have "i \<in> set ?f" by auto
    with \<open>sorted ?f\<close> have "i \<le> last ?f" by (rule sorted_le_last)
    with c \<open>c < i \<and> i < ?n\<close> show False by simp
  qed
  from 1 2 le show ?thesis by auto
qed


lemma commasBelow_split:
  assumes "rfind_comma s pos = Some c"
  shows "commasBelow s (searchEnd s pos) = insert c (commasBelow s c)"
  using rfind_comma_Some[OF assms]
  apply (auto simp: commasBelow_def)
  by (metis linorder_neqE_nat)

lemma commasBelow_replace:
  "c < length s \<Longrightarrow> commasBelow (replaceComma s c) (Suc c) = commasBelow s c"
  by (auto simp: commasBelow_def replaceComma_def commaHex_def nth_append less_Suc_eq)

lemma searchEnd_Some_replace: "c < length s \<Longrightarrow> searchEnd (replaceComma s c) (Some c) = Suc c"
  by (auto simp: searchEnd_def replaceComma_def commaHex_def)

lemma searchEnd_pred: "c < length s \<Longrightarrow> c \<noteq> 0 \<Longrightarrow> searchEnd s (Some (c - Suc 0)) = c"
  by (auto simp: searchEnd_def)

lemma finite_commasBelow: "finite (commasBelow s n)"
  by (simp add: commasBelow_def)

lemma card_commasBelow_less:
  assumes "rfind_comma s pos = Some c"
  shows "card (commasBelow s c) < card (commasBelow s (searchEnd s pos))"
proof -
  have "c \<notin> commasBelow s c" by (simp add: commasBelow_def)
  then show ?thesis
    by (simp add: commasBelow_split[OF assms] finite_commasBelow)
qed

text \<open>
  \<^verbatim>\<open>ParseKeyChain\<close>, lines 569-592. \<open>cpos - 1\<close> wraps to npos when \<open>cpos\<close> is 0, and the
  first recursive call is skipped then.
\<close>

function ParseKeyChain ::
  "(string \<Rightarrow> CKeySet option) \<Rightarrow> string \<Rightarrow> nat option \<Rightarrow> CKeyChain option"
where
  "ParseKeyChain parseKS keystr pos =
     (case ParseSingleChain parseKS keystr [] of
        Some kc \<Rightarrow> Some kc
      | None \<Rightarrow>
          (case rfind_comma keystr pos of
             None \<Rightarrow> None
           | Some cpos \<Rightarrow>
               (case (if cpos \<noteq> 0 then ParseKeyChain parseKS keystr (Some (cpos - 1)) else None) of
                  Some kc \<Rightarrow> Some kc
                | None \<Rightarrow> ParseKeyChain parseKS (replaceComma keystr cpos) (Some cpos))))"
  by pat_completeness auto

termination
proof (relation "measure (\<lambda>(parseKS, s, pos). card (commasBelow s (searchEnd s pos)))")
  show "wf (measure (\<lambda>(parseKS, s, pos). card (commasBelow s (searchEnd s pos))))" by simp
next
  fix parseKS :: "string \<Rightarrow> CKeySet option" and keystr pos cpos
  assume r: "rfind_comma keystr pos = Some cpos" and nz: "cpos \<noteq> 0"
  have "cpos < length keystr" using rfind_comma_Some[OF r] by simp
  then show "((parseKS, keystr, Some (cpos - 1)), (parseKS, keystr, pos))
      \<in> measure (\<lambda>(parseKS, s, pos). card (commasBelow s (searchEnd s pos)))"
    using card_commasBelow_less[OF r] nz by (simp add: searchEnd_pred)
next
  fix parseKS :: "string \<Rightarrow> CKeySet option" and keystr pos cpos
  assume r: "rfind_comma keystr pos = Some cpos"
  have "cpos < length keystr" using rfind_comma_Some[OF r] by simp
  then show "((parseKS, replaceComma keystr cpos, Some cpos), (parseKS, keystr, pos))
      \<in> measure (\<lambda>(parseKS, s, pos). card (commasBelow s (searchEnd s pos)))"
    using card_commasBelow_less[OF r] by (simp add: searchEnd_Some_replace commasBelow_replace)
qed

declare ParseKeyChain.simps [simp del]

section \<open>Binding mutators\<close>

text \<open>
  \<^verbatim>\<open>AddActionToKeyMap\<close>, lines 595-621. The result is the new map and the new value of
  \<^verbatim>\<open>bindingsCount\<close>; \<^verbatim>\<open>keyChain.back()\<close> of an empty chain is undefined, which is None.
  \<^verbatim>\<open>bindings[ks]\<close> on an absent key adds an entry; \<^verbatim>\<open>find_if\<close> looks for a binding with
  the same action line.
\<close>

definition AddActionToKeyMap :: "KeyMap \<Rightarrow> KeyBinding \<Rightarrow> int \<Rightarrow> (KeyMap \<times> int) option" where
  "AddActionToKeyMap bindings keyBinding cnt =
     (if keyChain keyBinding = [] then None
      else
        let ks = last (keyChain keyBinding) in
        (case map_of bindings ks of
           None \<Rightarrow>
             Some (bindings @ [(ks, [keyBinding\<lparr>bindingIndex := cnt + 1\<rparr>])], cnt + 1)
         | Some keyBindingList \<Rightarrow>
             if \<exists>k \<in> set keyBindingList. line (action keyBinding) = line (action k)
             then Some (bindings, cnt)
             else Some (AList.update ks (keyBindingList @ [keyBinding\<lparr>bindingIndex := cnt + 1\<rparr>]) bindings,
                        cnt + 1)))"

text \<open>The stateful commands, as \<^verbatim>\<open>CKeyBindings::Init\<close> fills them (lines 275-287).\<close>

definition statefulCommands :: "string list" where
  "statefulCommands =
     [''drawinmap'', ''moveforward'', ''moveback'', ''moveright'', ''moveleft'', ''moveup'',
      ''movedown'', ''moveslow'', ''movefast'', ''movetilt'', ''movereset'', ''moverotate'']"

text \<open>
  \<^verbatim>\<open>CKeyBindings::Bind\<close>, lines 624-651. The constructor \<^verbatim>\<open>Action(line)\<close> is not among
  the sources; it is the parameter \<open>mkAction\<close>. \<open>ks\<close> is a reference to the last chord of
  the binding's chain, so \<^verbatim>\<open>ks.SetAnyBit()\<close> changes the chain. The binding index of the
  fresh KeyBinding is written before every push, its first value is never read.
\<close>

definition Bind ::
  "(string \<Rightarrow> Action) \<Rightarrow> (string \<Rightarrow> CKeySet option) \<Rightarrow> CKeyBindings \<Rightarrow> string \<Rightarrow> string
     \<Rightarrow> bool \<times> CKeyBindings"
where
  "Bind mkAction parseKS st keystr ln =
     (if command (mkAction ln) = [] then (False, st)
      else
        (case ParseKeyChain parseKS keystr None of
           None \<Rightarrow> (False, st)
         | Some kc \<Rightarrow>
             if kc = [] then (False, st)
             else
               let ks = (if command (mkAction ln) \<in> set statefulCommands
                         then SetAnyBit (last kc) else last kc);
                   keyBinding = \<lparr>action = mkAction ln, keyChain = butlast kc @ [ks],
                                 boundWith = keystr, bindingIndex = 0\<rparr>
               in if IsKeyCode ks then
                    (case AddActionToKeyMap (codeBindings st) keyBinding (bindingsCount st) of
                       None \<Rightarrow> (False, st)
                     | Some (m, cnt) \<Rightarrow> (True, st\<lparr>codeBindings := m, bindingsCount := cnt\<rparr>))
                  else
                    (case AddActionToKeyMap (scanBindings st) keyBinding (bindingsCount st) of
                       None \<Rightarrow> (False, st)
                     | Some (m, cnt) \<Rightarrow> (True, st\<lparr>scanBindings := m, bindingsCount := cnt\<rparr>))))"

text \<open>
  \<^verbatim>\<open>RemoveCommandFromList\<close>, lines 770-786: the loop walks the list once; \<open>kept\<close> is the
  part before the iterator, \<open>success\<close> the flag.
\<close>

fun RemoveCommandFromList_loop ::
  "KeyBindingList \<Rightarrow> KeyBindingList \<Rightarrow> string \<Rightarrow> bool \<Rightarrow> bool \<times> KeyBindingList"
where
  "RemoveCommandFromList_loop kept [] cmd success = (success, kept)"
| "RemoveCommandFromList_loop kept (b # bs) cmd success =
     (if command (action b) = cmd then RemoveCommandFromList_loop kept bs cmd True
      else RemoveCommandFromList_loop (kept @ [b]) bs cmd success)"

definition RemoveCommandFromList :: "KeyBindingList \<Rightarrow> string \<Rightarrow> bool \<times> KeyBindingList" where
  "RemoveCommandFromList keyBindingList cmd = RemoveCommandFromList_loop [] keyBindingList cmd False"

text \<open>\<^verbatim>\<open>CKeyBindings::UnBind\<close>, lines 654-678; \<^verbatim>\<open>ks.Parse(keystr)\<close> is \<open>parseKS\<close>.\<close>

definition UnBind_map :: "KeyMap \<Rightarrow> CKeySet \<Rightarrow> string \<Rightarrow> bool \<times> KeyMap" where
  "UnBind_map bindings ks cmd =
     (case map_of bindings ks of
        None \<Rightarrow> (False, bindings)
      | Some keyBindingList \<Rightarrow>
          (case RemoveCommandFromList keyBindingList cmd of
             (success, l) \<Rightarrow>
               (success, if l = [] then AList.delete ks bindings else AList.update ks l bindings)))"

definition UnBind ::
  "(string \<Rightarrow> CKeySet option) \<Rightarrow> CKeyBindings \<Rightarrow> string \<Rightarrow> string \<Rightarrow> bool \<times> CKeyBindings"
where
  "UnBind parseKS st keystr cmd =
     (case parseKS keystr of
        None \<Rightarrow> (False, st)
      | Some ks \<Rightarrow>
          if IsKeyCode ks then
            (case UnBind_map (codeBindings st) ks cmd of
               (success, m) \<Rightarrow> (success, st\<lparr>codeBindings := m\<rparr>))
          else
            (case UnBind_map (scanBindings st) ks cmd of
               (success, m) \<Rightarrow> (success, st\<lparr>scanBindings := m\<rparr>)))"

text \<open>\<^verbatim>\<open>CKeyBindings::UnBindKeyset\<close>, lines 681-701.\<close>

definition UnBindKeyset ::
  "(string \<Rightarrow> CKeySet option) \<Rightarrow> CKeyBindings \<Rightarrow> string \<Rightarrow> bool \<times> CKeyBindings"
where
  "UnBindKeyset parseKS st keystr =
     (case parseKS keystr of
        None \<Rightarrow> (False, st)
      | Some ks \<Rightarrow>
          if IsKeyCode ks then
            (case map_of (codeBindings st) ks of
               None \<Rightarrow> (False, st)
             | Some l \<Rightarrow> (True, st\<lparr>codeBindings := AList.delete ks (codeBindings st)\<rparr>))
          else
            (case map_of (scanBindings st) ks of
               None \<Rightarrow> (False, st)
             | Some l \<Rightarrow> (True, st\<lparr>scanBindings := AList.delete ks (scanBindings st)\<rparr>)))"

text \<open>
  \<^verbatim>\<open>RemoveActionFromKeyMap\<close>, lines 704-724: the loop visits every entry of the map;
  \<open>visited\<close> holds the entries before the iterator that were kept.
\<close>

fun RemoveActionFromKeyMap_loop :: "KeyMap \<Rightarrow> KeyMap \<Rightarrow> string \<Rightarrow> bool \<Rightarrow> bool \<times> KeyMap" where
  "RemoveActionFromKeyMap_loop visited [] cmd success = (success, visited)"
| "RemoveActionFromKeyMap_loop visited ((ks, keyBindingList) # rest) cmd success =
     (case RemoveCommandFromList keyBindingList cmd of
        (removed, l) \<Rightarrow>
          RemoveActionFromKeyMap_loop
            (if l = [] then visited else visited @ [(ks, l)]) rest cmd
            (if removed then True else success))"

definition RemoveActionFromKeyMap :: "string \<Rightarrow> KeyMap \<Rightarrow> bool \<times> KeyMap" where
  "RemoveActionFromKeyMap cmd bindings = RemoveActionFromKeyMap_loop [] bindings cmd False"

text \<open>
  \<^verbatim>\<open>CKeyBindings::UnBindAction\<close>, lines 727-732. The operator \<^verbatim>\<open>||\<close> evaluates its right
  operand only when the left one is false.
\<close>

definition UnBindAction :: "CKeyBindings \<Rightarrow> string \<Rightarrow> bool \<times> CKeyBindings" where
  "UnBindAction st cmd =
     (case RemoveActionFromKeyMap cmd (codeBindings st) of
        (codeRemoved, cm) \<Rightarrow>
          if codeRemoved then (True, st\<lparr>codeBindings := cm\<rparr>)
          else
            (case RemoveActionFromKeyMap cmd (scanBindings st) of
               (scanRemoved, sm) \<Rightarrow> (scanRemoved, st\<lparr>codeBindings := cm, scanBindings := sm\<rparr>)))"

text \<open>
  The branch \<^verbatim>\<open>unbindall\<close> of \<^verbatim>\<open>CKeyBindings::ExecuteCommand\<close>, lines 908-918.
  \<^verbatim>\<open>keyCodes.Reset()\<close> and \<^verbatim>\<open>scanCodes.Reset()\<close> restore the key-name tables, which
  only the chord parser reads: \<open>parseKS\<close> is the parser over the restored tables.
\<close>

definition clearBindings :: "CKeyBindings \<Rightarrow> CKeyBindings" where
  "clearBindings st = st\<lparr>codeBindings := [], scanBindings := [], bindingsCount := 0\<rparr>"

definition unbindall ::
  "(string \<Rightarrow> Action) \<Rightarrow> (string \<Rightarrow> CKeySet option) \<Rightarrow> CKeyBindings \<Rightarrow> CKeyBindings"
where
  "unbindall mkAction parseKS st = snd (Bind mkAction parseKS (clearBindings st) ''enter'' ''chat'')"

section \<open>A chord parser and an action constructor for the worked examples\<close>

text \<open>
  Modelled from the spec: \<^verbatim>\<open>CKeySet::Parse\<close> and the constructor \<^verbatim>\<open>Action(line)\<close> are
  not among the sources. The theorems below hold for every parser and every constructor;
  the worked examples need one of each. Following spec 4.1, a chord text is a sequence of
  modifier names joined by "+" (among them the wildcard "Any"), then a key name or a
  hex-coded key reference, which is \<^verbatim>\<open>0x\<close> followed by hex digits and nothing else; any
  other text is an unrecognized key name. A name that starts with \<^verbatim>\<open>sc_\<close> is a scan
  code. An action line is a command word followed by its extra text.
\<close>

definition hexDigits :: "(char \<times> int) list" where
  "hexDigits =
     [(CHR ''0'', 0), (CHR ''1'', 1), (CHR ''2'', 2), (CHR ''3'', 3), (CHR ''4'', 4),
      (CHR ''5'', 5), (CHR ''6'', 6), (CHR ''7'', 7), (CHR ''8'', 8), (CHR ''9'', 9),
      (CHR ''a'', 10), (CHR ''b'', 11), (CHR ''c'', 12), (CHR ''d'', 13), (CHR ''e'', 14),
      (CHR ''f'', 15)]"

definition isHexDigit :: "char \<Rightarrow> bool" where
  "isHexDigit c = (map_of hexDigits c \<noteq> None)"

definition hexValue :: "string \<Rightarrow> int" where
  "hexValue ds = foldl (\<lambda>v c. 16 * v + (case map_of hexDigits c of Some d \<Rightarrow> d | None \<Rightarrow> 0)) 0 ds"

definition keyNames :: "(string \<times> int) list" where
  "keyNames = [(''enter'', 13), (''up'', 273), (''a'', 97), (''b'', 98), (''g'', 103)]"

definition parseKeyName :: "string \<Rightarrow> CKeySet option" where
  "parseKeyName s =
     (if take 2 s = ''0x'' then
        (let ds = drop 2 s
         in if ds = [] \<or> \<not> list_all isHexDigit ds then None
            else Some \<lparr>key = hexValue ds, modifiers = 0, keyType = KSKeyCode\<rparr>)
      else if take 3 s = ''sc_'' then
        (case map_of keyNames (drop 3 s) of
           None \<Rightarrow> None
         | Some k \<Rightarrow> Some \<lparr>key = k, modifiers = 0, keyType = KSScanCode\<rparr>)
      else
        (case map_of keyNames s of
           None \<Rightarrow> None
         | Some k \<Rightarrow> Some \<lparr>key = k, modifiers = 0, keyType = KSKeyCode\<rparr>))"

definition addModifier :: "8 word \<Rightarrow> CKeySet \<Rightarrow> CKeySet" where
  "addModifier m ks = ks\<lparr>modifiers := modifiers ks OR m\<rparr>"

function parseChord :: "string \<Rightarrow> CKeySet option" where
  "parseChord s =
     (if take 4 s = ''Any+'' then map_option (addModifier KS_ANYMOD) (parseChord (drop 4 s))
      else if take 6 s = ''Shift+'' then map_option (addModifier KS_SHIFT) (parseChord (drop 6 s))
      else if take 5 s = ''Ctrl+'' then map_option (addModifier KS_CTRL) (parseChord (drop 5 s))
      else if take 4 s = ''Alt+'' then map_option (addModifier KS_ALT) (parseChord (drop 4 s))
      else parseKeyName s)"
  by pat_completeness auto
termination
proof (relation "measure length")
  have pre: "\<And>s n x xs. take n s = x # xs \<Longrightarrow> 0 < n \<Longrightarrow> length (drop n s) < length s"
    by (case_tac s) auto
  fix s :: string
  show "take 4 s = ''Any+'' \<Longrightarrow> (drop 4 s, s) \<in> measure length" using pre[of 4 s] by simp
  show "take 6 s = ''Shift+'' \<Longrightarrow> (drop 6 s, s) \<in> measure length" using pre[of 6 s] by simp
  show "take 5 s = ''Ctrl+'' \<Longrightarrow> (drop 5 s, s) \<in> measure length" using pre[of 5 s] by simp
  show "take 4 s = ''Alt+'' \<Longrightarrow> (drop 4 s, s) \<in> measure length" using pre[of 4 s] by simp
qed simp

declare parseChord.simps [simp del]

definition parseAction :: "string \<Rightarrow> Action" where
  "parseAction ln =
     (let cmd = takeWhile (\<lambda>c. c \<noteq> CHR '' '') ln;
          ext = dropWhile (\<lambda>c. c = CHR '' '') (dropWhile (\<lambda>c. c \<noteq> CHR '' '') ln)
      in \<lparr>command = cmd, extra = ext,
          line = (if ext = [] then cmd else cmd @ '' '' @ ext), rawline = ln\<rparr>)"

section \<open>Reading the stores, and data for the worked examples\<close>

text \<open>\<^verbatim>\<open>ks.IsKeyCode() ? codeBindings : scanBindings\<close>, and the list found under a chord
  (empty when the chord has no entry).\<close>

definition bindingsFor :: "CKeyBindings \<Rightarrow> CKeySet \<Rightarrow> KeyMap" where
  "bindingsFor st ks = (if IsKeyCode ks then codeBindings st else scanBindings st)"

definition bindingsAt :: "KeyMap \<Rightarrow> CKeySet \<Rightarrow> KeyBindingList" where
  "bindingsAt m ks = (case map_of m ks of None \<Rightarrow> [] | Some l \<Rightarrow> l)"

fun AddActionRepeat :: "nat \<Rightarrow> KeyMap \<Rightarrow> KeyBinding \<Rightarrow> int \<Rightarrow> (KeyMap \<times> int) option" where
  "AddActionRepeat 0 m kb cnt = Some (m, cnt)"
| "AddActionRepeat (Suc n) m kb cnt =
     (case AddActionToKeyMap m kb cnt of
        None \<Rightarrow> None
      | Some (m', cnt') \<Rightarrow> AddActionRepeat n m' kb cnt')"


definition simpleBinding :: "string \<Rightarrow> string \<Rightarrow> CKeyChain \<Rightarrow> int \<Rightarrow> KeyBinding" where
  "simpleBinding cmd keystr kc idx =
     \<lparr>action = \<lparr>command = cmd, extra = [], line = cmd, rawline = cmd\<rparr>,
      keyChain = kc, boundWith = keystr, bindingIndex = idx\<rparr>"

definition codeChord :: "int \<Rightarrow> 8 word \<Rightarrow> CKeySet" where
  "codeChord k m = \<lparr>key = k, modifiers = m, keyType = KSKeyCode\<rparr>"

definition scanChord :: "int \<Rightarrow> 8 word \<Rightarrow> CKeySet" where
  "scanChord k m = \<lparr>key = k, modifiers = m, keyType = KSScanCode\<rparr>"


definition storeA :: CKeyBindings where
  "storeA =
     \<lparr>codeBindings =
        [(codeChord 97 0,
          [simpleBinding ''attack'' ''a'' [codeChord 97 0] 1,
           simpleBinding ''guard'' ''a'' [codeChord 97 0] 3])],
      scanBindings = [(scanChord 4 0, [simpleBinding ''attack'' ''sc_a'' [scanChord 4 0] 2])],
      bindingsCount = 3\<rparr>"


section \<open>The merge loop as list functions, and the invariant of the stores\<close>

text \<open>
  The inner loop of the merge reads and erases positions of \<open>out\<close>; on the part of
  \<open>out\<close> that came from list A it is \<open>scanA\<close>, and the loop over list B is \<open>dedup\<close>
  (proved below). \<open>keepA\<close> and \<open>keepB\<close> say which bindings of the two lists survive.
\<close>

definition sameLine :: "KeyBinding \<Rightarrow> KeyBinding \<Rightarrow> bool" where
  "sameLine aB x = (line (action aB) = line (action x))"

fun eraseFirst :: "('a \<Rightarrow> bool) \<Rightarrow> 'a list \<Rightarrow> 'a list" where
  "eraseFirst P [] = []"
| "eraseFirst P (x # xs) = (if P x then xs else x # eraseFirst P xs)"

definition scanA :: "KeyBinding \<Rightarrow> KeyBindingList \<Rightarrow> bool \<times> KeyBindingList" where
  "scanA aB As =
     (case find (sameLine aB) As of
        None \<Rightarrow> (True, As)
      | Some x \<Rightarrow> if bindingIndex aB \<ge> bindingIndex x then (False, As)
                  else (True, eraseFirst (sameLine aB) As))"

fun dedup :: "KeyBindingList \<Rightarrow> KeyBindingList \<times> KeyBindingList \<Rightarrow> KeyBindingList \<times> KeyBindingList" where
  "dedup [] (As, Bacc) = (As, Bacc)"
| "dedup (aB # Bs) (As, Bacc) =
     (case scanA aB As of
        (toAdd, As') \<Rightarrow> dedup Bs (As', if toAdd then Bacc @ [aB] else Bacc))"

definition keepA :: "KeyBindingList \<Rightarrow> KeyBinding \<Rightarrow> bool" where
  "keepA Bs a = (\<not> (\<exists>b \<in> set Bs. sameLine b a \<and> bindingIndex b < bindingIndex a))"

definition keepB :: "KeyBindingList \<Rightarrow> KeyBinding \<Rightarrow> bool" where
  "keepB As b = (\<not> (\<exists>a \<in> set As. sameLine b a \<and> bindingIndex b \<ge> bindingIndex a))"

text \<open>
  The invariant of the two stores that the mutators keep: every binding is filed under the
  trigger chord of its own chain, no binding index exceeds the counter, every list is
  ordered by binding index and holds an action line at most once (spec section 3).
\<close>

definition keyMap_inv :: "int \<Rightarrow> KeyMap \<Rightarrow> bool" where
  "keyMap_inv cnt m =
     (\<forall>p \<in> set m.
        (\<forall>b \<in> set (snd p). keyChain b \<noteq> [] \<and> last (keyChain b) = fst p \<and> bindingIndex b \<le> cnt) \<and>
        sorted (map bindingIndex (snd p)) \<and>
        distinct (map (line \<circ> action) (snd p)))"

definition store_inv :: "CKeyBindings \<Rightarrow> bool" where
  "store_inv st =
     (keyMap_inv (bindingsCount st) (codeBindings st) \<and>
      keyMap_inv (bindingsCount st) (scanBindings st))"

text \<open>The order of a resolution result: exact before wildcard, then by binding index.\<close>

definition triggerOrder :: "KeyBinding \<Rightarrow> KeyBinding \<Rightarrow> bool" where
  "triggerOrder x y =
     ((AnyMod (last (keyChain x)) \<longrightarrow> AnyMod (last (keyChain y))) \<and>
      (AnyMod (last (keyChain x)) = AnyMod (last (keyChain y)) \<longrightarrow> bindingIndex x \<le> bindingIndex y))"

text \<open>
  Modelled from the spec: \<^verbatim>\<open>CKeyChain::fit\<close> is not among the sources; the theorems hold
  for every such predicate. For the worked examples, following spec 4.1 without the
  timestamps: the candidate chain is matched against the last chords of the live chain,
  each chord exactly or through its wildcard variant.
\<close>

definition chordMatches :: "CKeySet \<Rightarrow> CKeySet \<Rightarrow> bool" where
  "chordMatches live cand = (cand = live \<or> cand = SetAnyBit live)"

definition fitChords :: "CKeyChain \<Rightarrow> CKeyChain \<Rightarrow> bool" where
  "fitChords live cand =
     (cand \<noteq> [] \<and> length cand \<le> length live \<and>
      list_all2 chordMatches (drop (length live - length cand) live) cand)"

definition storeB :: CKeyBindings where
  "storeB =
     \<lparr>codeBindings =
        [(codeChord 97 0,
          [simpleBinding ''attack'' ''a'' [codeChord 97 0] 1,
           simpleBinding ''guard'' ''a'' [codeChord 97 0] 4]),
         (codeChord 97 16, [simpleBinding ''select'' ''Any+a'' [codeChord 97 16] 2])],
      scanBindings = [(scanChord 4 0, [simpleBinding ''attack'' ''sc_a'' [scanChord 4 0] 3])],
      bindingsCount = 4\<rparr>"

definition listA :: KeyBindingList where
  "listA = [simpleBinding ''attack'' ''a'' [codeChord 97 0] 1,
            simpleBinding ''guard'' ''a'' [codeChord 97 0] 4]"

definition listB :: KeyBindingList where
  "listB = [simpleBinding ''guard'' ''sc_a'' [scanChord 4 0] 2,
            simpleBinding ''attack'' ''sc_a'' [scanChord 4 0] 3]"







section \<open>Properties\<close>

subsection \<open>Lookup of one chord\<close>

lemma AnyMod_SetAnyBit: "AnyMod (SetAnyBit ks)"
  unfolding AnyMod_def SetAnyBit_def KS_ANYMOD_def
  by (simp add: word_ao_absorbs)

lemma IsKeyCode_SetAnyBit: "IsKeyCode (SetAnyBit ks) = IsKeyCode ks"
  by (simp add: IsKeyCode_def SetAnyBit_def)

text \<open>
  C9. A chord whose key identifier is negative is a lookup miss: the per-chord lookup
  returns the empty binding list for both values of forceAny and every content of the two
  stores (the function is a pure reading of the state, so no store is changed).
\<close>

theorem negative_key_lookup_is_empty:
  "Key ks < 0 \<Longrightarrow> GetKeyBindingList_ks st ks forceAny = []"
  by (simp add: GetKeyBindingList_ks_def)

theorem negative_key_lookup_is_empty_witness:
  "Key (codeChord (- 1) 0) < 0 \<and>
   GetKeyBindingList_ks
     \<lparr>codeBindings =
        [(codeChord (- 1) 0, [simpleBinding ''chat'' ''enter'' [codeChord (- 1) 0] 1]),
         (codeChord (- 1) 16, [simpleBinding ''chat'' ''Any+enter'' [codeChord (- 1) 16] 2])],
      scanBindings = [], bindingsCount = 2\<rparr>
     (codeChord (- 1) 0) False = [] \<and>
   GetKeyBindingList_ks
     \<lparr>codeBindings =
        [(codeChord (- 1) 0, [simpleBinding ''chat'' ''enter'' [codeChord (- 1) 0] 1]),
         (codeChord (- 1) 16, [simpleBinding ''chat'' ''Any+enter'' [codeChord (- 1) 16] 2])],
      scanBindings = [], bindingsCount = 2\<rparr>
     (codeChord (- 1) 0) True = []"
  using negative_key_lookup_is_empty [of "codeChord (- 1) 0" _ False]
    negative_key_lookup_is_empty [of "codeChord (- 1) 0" _ True]
  by (simp add: Key_def codeChord_def)

subsection \<open>Failed binds\<close>

text \<open>
  C5. A bind whose action command is empty, or whose shortcut does not parse to a non-empty
  key chain, returns false and leaves both keyspace stores and the binding index counter
  exactly as they were.
\<close>

theorem failed_bind_is_noop:
  "command (mkAction ln) = [] \<or> ParseKeyChain parseKS keystr None = None
     \<or> ParseKeyChain parseKS keystr None = Some []
   \<Longrightarrow> Bind mkAction parseKS st keystr ln = (False, st)"
  by (auto simp: Bind_def)

theorem failed_bind_is_noop_witness:
  "ParseKeyChain parseChord ''nokey'' None = None \<and>
   Bind parseAction parseChord storeA ''nokey'' ''attack'' = (False, storeA)"
proof -
  have h: "ParseKeyChain parseChord ''nokey'' None = None"
    by code_simp
  show ?thesis
    using h failed_bind_is_noop [of parseAction "''attack''" parseChord "''nokey''" storeA]
    by simp
qed

subsection \<open>Removing a command\<close>

lemma RemoveCommandFromList_loop_eq:
  "RemoveCommandFromList_loop kept l cmd success =
     (success \<or> (\<exists>b \<in> set l. command (action b) = cmd),
      kept @ filter (\<lambda>b. command (action b) \<noteq> cmd) l)"
  by (induction l arbitrary: kept success) auto

lemma RemoveCommandFromList_eq:
  "RemoveCommandFromList l cmd =
     ((\<exists>b \<in> set l. command (action b) = cmd), filter (\<lambda>b. command (action b) \<noteq> cmd) l)"
  by (simp add: RemoveCommandFromList_def RemoveCommandFromList_loop_eq)

lemma bindingsAt_delete: "bindingsAt (AList.delete ks m) ks' = (if ks' = ks then [] else bindingsAt m ks')"
  by (auto simp: bindingsAt_def delete_conv')

lemma map_of_delete_other: "ks' \<noteq> ks \<Longrightarrow> map_of (AList.delete ks m) ks' = map_of m ks'"
  by (simp add: delete_conv')

lemma map_of_update_other: "ks' \<noteq> ks \<Longrightarrow> map_of (AList.update ks l m) ks' = map_of m ks'"
  by (simp add: update_conv')

lemma bindingsAt_update: "bindingsAt (AList.update ks l m) ks' = (if ks' = ks then l else bindingsAt m ks')"
  by (auto simp: bindingsAt_def update_conv')

lemma UnBind_map_eq:
  assumes "UnBind_map m ks cmd = (ok, m')"
  shows "bindingsAt m' ks = filter (\<lambda>b. command (action b) \<noteq> cmd) (bindingsAt m ks) \<and>
     (\<forall>ks'. ks' \<noteq> ks \<longrightarrow> map_of m' ks' = map_of m ks') \<and>
     (ok \<longleftrightarrow> (\<exists>b \<in> set (bindingsAt m ks). command (action b) = cmd))"
proof (cases "map_of m ks")
  case None
  with assms show ?thesis by (simp add: UnBind_map_def bindingsAt_def)
next
  case (Some l)
  let ?l' = "filter (\<lambda>b. command (action b) \<noteq> cmd) l"
  have at: "bindingsAt m ks = l" using Some by (simp add: bindingsAt_def)
  from assms Some have ok: "ok = (\<exists>b \<in> set l. command (action b) = cmd)"
    and m': "m' = (if ?l' = [] then AList.delete ks m else AList.update ks ?l' m)"
    by (auto simp: UnBind_map_def RemoveCommandFromList_eq)
  show ?thesis
    by (simp add: at ok m' bindingsAt_delete bindingsAt_update map_of_delete_other map_of_update_other)
qed

text \<open>
  C10. Removing a command from one chord's binding list keeps every binding of that list
  whose command differs, in the same order and with the same content and binding index
  (the list is filtered); every other chord's list in both stores, the other store and
  the counter are unchanged.
\<close>

theorem unbind_keeps_other_bindings:
  assumes "parseKS keystr = Some ks" and "UnBind parseKS st keystr cmd = (ok, st')"
  shows "snd (RemoveCommandFromList l cmd) = filter (\<lambda>b. command (action b) \<noteq> cmd) l \<and>
         bindingsAt (bindingsFor st' ks) ks
           = filter (\<lambda>b. command (action b) \<noteq> cmd) (bindingsAt (bindingsFor st ks) ks) \<and>
         (\<forall>ks'. ks' \<noteq> ks \<longrightarrow>
            map_of (codeBindings st') ks' = map_of (codeBindings st) ks' \<and>
            map_of (scanBindings st') ks' = map_of (scanBindings st) ks') \<and>
         (if IsKeyCode ks then scanBindings st' = scanBindings st
          else codeBindings st' = codeBindings st) \<and>
         bindingsCount st' = bindingsCount st"
  using assms
  by (auto simp: UnBind_def bindingsFor_def RemoveCommandFromList_eq
        split: prod.splits if_splits dest!: UnBind_map_eq)

theorem unbind_keeps_other_bindings_witness:
  "parseChord ''a'' = Some (codeChord 97 0) \<and>
   UnBind parseChord storeA ''a'' ''attack''
     = (True, storeA\<lparr>codeBindings :=
                       [(codeChord 97 0, [simpleBinding ''guard'' ''a'' [codeChord 97 0] 3])]\<rparr>) \<and>
   bindingsAt (bindingsFor (storeA\<lparr>codeBindings :=
                       [(codeChord 97 0, [simpleBinding ''guard'' ''a'' [codeChord 97 0] 3])]\<rparr>)
                 (codeChord 97 0)) (codeChord 97 0)
     = [simpleBinding ''guard'' ''a'' [codeChord 97 0] 3]"
proof -
  have p: "parseChord ''a'' = Some (codeChord 97 0)"
    by code_simp
  have u: "UnBind parseChord storeA ''a'' ''attack''
     = (True, storeA\<lparr>codeBindings :=
                       [(codeChord 97 0, [simpleBinding ''guard'' ''a'' [codeChord 97 0] 3])]\<rparr>)"
    by (simp add: UnBind_def p UnBind_map_def RemoveCommandFromList_def storeA_def
          codeChord_def IsKeyCode_def simpleBinding_def)
  show ?thesis
    using p u unbind_keeps_other_bindings [OF p u]
    by (simp add: storeA_def bindingsAt_def bindingsFor_def codeChord_def IsKeyCode_def simpleBinding_def)
qed

lemma RemoveActionFromKeyMap_loop_eq:
  "RemoveActionFromKeyMap_loop visited m cmd success =
     (success \<or> (\<exists>p \<in> set m. \<exists>b \<in> set (snd p). command (action b) = cmd),
      visited @ filter (\<lambda>p. snd p \<noteq> [])
                  (map (\<lambda>p. (fst p, filter (\<lambda>b. command (action b) \<noteq> cmd) (snd p))) m))"
proof (induction m arbitrary: visited success)
  case Nil
  show ?case by simp
next
  case (Cons p m)
  obtain ks l where p: "p = (ks, l)" by (cases p)
  show ?case
    unfolding p by (simp add: RemoveCommandFromList_eq Cons.IH)
qed

lemma RemoveActionFromKeyMap_eq:
  "RemoveActionFromKeyMap cmd m =
     ((\<exists>p \<in> set m. \<exists>b \<in> set (snd p). command (action b) = cmd),
      filter (\<lambda>p. snd p \<noteq> [])
        (map (\<lambda>p. (fst p, filter (\<lambda>b. command (action b) \<noteq> cmd) (snd p))) m))"
  by (simp add: RemoveActionFromKeyMap_def RemoveActionFromKeyMap_loop_eq)

text \<open>
  C3 (what the code does on a command bound in both keyspaces). With "attack" bound to
  the key code a and to the scan code of a, \<^verbatim>\<open>UnBindAction\<close> removes the key-code binding,
  returns true, and leaves the scan-code binding in place: the right operand of \<^verbatim>\<open>||\<close>
  is not evaluated.
\<close>

theorem UnBindAction_skips_scan_store:
  "UnBindAction
     \<lparr>codeBindings = [(codeChord 97 0, [simpleBinding ''attack'' ''a'' [codeChord 97 0] 1])],
      scanBindings = [(scanChord 4 0, [simpleBinding ''attack'' ''sc_a'' [scanChord 4 0] 2])],
      bindingsCount = 2\<rparr> ''attack''
   = (True,
      \<lparr>codeBindings = [],
       scanBindings = [(scanChord 4 0, [simpleBinding ''attack'' ''sc_a'' [scanChord 4 0] 2])],
       bindingsCount = 2\<rparr>)"
  by (simp add: UnBindAction_def RemoveActionFromKeyMap_def RemoveCommandFromList_def simpleBinding_def)

subsection \<open>Inserting a binding\<close>

lemma AddActionToKeyMap_present:
  assumes "keyChain kb \<noteq> []"
    and "line (action kb) \<in> set (map (line \<circ> action) (bindingsAt m (last (keyChain kb))))"
  shows "AddActionToKeyMap m kb cnt = Some (m, cnt)"
proof (cases "map_of m (last (keyChain kb))")
  case None
  with assms(2) show ?thesis by (simp add: bindingsAt_def)
next
  case (Some l)
  with assms have "\<exists>k \<in> set l. line (action kb) = line (action k)"
    by (auto simp: bindingsAt_def)
  with Some assms(1) show ?thesis
    by (simp add: AddActionToKeyMap_def)
qed

lemma AddActionToKeyMap_absent:
  assumes "keyChain kb \<noteq> []"
    and "line (action kb) \<notin> set (map (line \<circ> action) (bindingsAt m (last (keyChain kb))))"
  shows "\<exists>m'. AddActionToKeyMap m kb cnt = Some (m', cnt + 1) \<and>
           bindingsAt m' (last (keyChain kb))
             = bindingsAt m (last (keyChain kb)) @ [kb\<lparr>bindingIndex := cnt + 1\<rparr>] \<and>
           (\<forall>ks'. ks' \<noteq> last (keyChain kb) \<longrightarrow> map_of m' ks' = map_of m ks')"
proof (cases "map_of m (last (keyChain kb))")
  case None
  then show ?thesis using assms(1)
    by (simp add: AddActionToKeyMap_def bindingsAt_def map_add_def split: option.splits)
next
  case (Some l)
  with assms(2) have "\<not> (\<exists>k \<in> set l. line (action kb) = line (action k))"
    by (auto simp: bindingsAt_def)
  with Some assms(1) show ?thesis
    by (simp add: AddActionToKeyMap_def bindingsAt_def update_conv')
qed

lemma filter_key_absent: "v \<notin> f ` set l \<Longrightarrow> filter (\<lambda>k. f k = v) l = []"
  by (induction l) auto

lemma count_distinct_key:
  "distinct (map f l) \<Longrightarrow> v \<in> set (map f l) \<Longrightarrow> length (filter (\<lambda>k. f k = v) l) = 1"
proof (induction l)
  case Nil
  then show ?case by simp
next
  case (Cons x l)
  show ?case
  proof (cases "f x = v")
    case True
    with Cons.prems(1) have "filter (\<lambda>k. f k = v) l = []"
      by (simp add: filter_key_absent)
    with True show ?thesis by simp
  next
    case False
    with Cons show ?thesis by auto
  qed
qed

lemma AddActionRepeat_fixed:
  "AddActionToKeyMap m kb cnt = Some (m, cnt) \<Longrightarrow> AddActionRepeat n m kb cnt = Some (m, cnt)"
  by (induction n) auto

text \<open>
  C4. Inserting a binding is idempotent: when a binding with the same action line is
  already in the list of the trigger chord, the map and the counter are unchanged;
  otherwise the binding is appended with the fresh index counter + 1 and no other chord's
  list changes. Inserting the same binding any number of times (n + 1) gives the result
  of inserting it once, and the list then holds that action line exactly once.
\<close>

theorem rebinding_is_idempotent:
  assumes "keyChain kb \<noteq> []"
    and "distinct (map (line \<circ> action) (bindingsAt m (last (keyChain kb))))"
  shows "\<exists>m' cnt'. AddActionToKeyMap m kb cnt = Some (m', cnt') \<and>
           (if line (action kb) \<in> set (map (line \<circ> action) (bindingsAt m (last (keyChain kb))))
            then m' = m \<and> cnt' = cnt
            else cnt' = cnt + 1 \<and>
                 bindingsAt m' (last (keyChain kb))
                   = bindingsAt m (last (keyChain kb)) @ [kb\<lparr>bindingIndex := cnt + 1\<rparr>] \<and>
                 (\<forall>ks'. ks' \<noteq> last (keyChain kb) \<longrightarrow> map_of m' ks' = map_of m ks')) \<and>
           AddActionRepeat (Suc n) m kb cnt = Some (m', cnt') \<and>
           length (filter (\<lambda>k. line (action k) = line (action kb))
                     (bindingsAt m' (last (keyChain kb)))) = 1"
proof (cases "line (action kb) \<in> set (map (line \<circ> action) (bindingsAt m (last (keyChain kb))))")
  case True
  have one: "AddActionToKeyMap m kb cnt = Some (m, cnt)"
    using assms(1) True by (rule AddActionToKeyMap_present)
  have "length (filter (\<lambda>k. line (action k) = line (action kb))
                     (bindingsAt m (last (keyChain kb)))) = 1"
    using count_distinct_key[OF assms(2) True] by simp
  with one True show ?thesis
    by (simp add: AddActionRepeat_fixed)
next
  case False
  from AddActionToKeyMap_absent[OF assms(1) False, of cnt]
  obtain m' where m': "AddActionToKeyMap m kb cnt = Some (m', cnt + 1)"
    "bindingsAt m' (last (keyChain kb))
       = bindingsAt m (last (keyChain kb)) @ [kb\<lparr>bindingIndex := cnt + 1\<rparr>]"
    "\<forall>ks'. ks' \<noteq> last (keyChain kb) \<longrightarrow> map_of m' ks' = map_of m ks'"
    by blast
  have pres: "line (action (kb\<lparr>bindingIndex := cnt + 1\<rparr>))
      \<in> set (map (line \<circ> action) (bindingsAt m' (last (keyChain (kb\<lparr>bindingIndex := cnt + 1\<rparr>)))))"
    by (simp add: m'(2))
  have again: "AddActionToKeyMap m' kb (cnt + 1) = Some (m', cnt + 1)"
    by (rule AddActionToKeyMap_present) (use assms(1) m'(2) in auto)
  have cntf: "filter (\<lambda>k. line (action k) = line (action kb)) (bindingsAt m (last (keyChain kb))) = []"
    using False filter_key_absent[of "line (action kb)" "line \<circ> action"] by simp
  show ?thesis
    using False m' again cntf by (simp add: AddActionRepeat_fixed)
qed

theorem rebinding_is_idempotent_witness:
  "keyChain (simpleBinding ''guard'' ''a'' [codeChord 97 0] 0) \<noteq> [] \<and>
   distinct (map (line \<circ> action)
     (bindingsAt [(codeChord 97 0, [simpleBinding ''attack'' ''a'' [codeChord 97 0] 1])]
        (last (keyChain (simpleBinding ''guard'' ''a'' [codeChord 97 0] 0))))) \<and>
   AddActionRepeat (Suc 2) [(codeChord 97 0, [simpleBinding ''attack'' ''a'' [codeChord 97 0] 1])]
       (simpleBinding ''guard'' ''a'' [codeChord 97 0] 0) 1
     = AddActionToKeyMap [(codeChord 97 0, [simpleBinding ''attack'' ''a'' [codeChord 97 0] 1])]
         (simpleBinding ''guard'' ''a'' [codeChord 97 0] 0) 1 \<and>
   AddActionRepeat (Suc 2) [(codeChord 97 0, [simpleBinding ''attack'' ''a'' [codeChord 97 0] 1])]
       (simpleBinding ''attack'' ''a'' [codeChord 97 0] 0) 1
     = Some ([(codeChord 97 0, [simpleBinding ''attack'' ''a'' [codeChord 97 0] 1])], 1)"
proof -
  let ?m = "[(codeChord 97 0, [simpleBinding ''attack'' ''a'' [codeChord 97 0] 1])]"
  let ?g = "simpleBinding ''guard'' ''a'' [codeChord 97 0] 0"
  let ?a = "simpleBinding ''attack'' ''a'' [codeChord 97 0] 0"
  have h1: "keyChain ?g \<noteq> []" "keyChain ?a \<noteq> []"
    by (simp_all add: simpleBinding_def)
  have h2: "distinct (map (line \<circ> action) (bindingsAt ?m (last (keyChain ?g))))"
    "distinct (map (line \<circ> action) (bindingsAt ?m (last (keyChain ?a))))"
    by (simp_all add: simpleBinding_def bindingsAt_def)
  have pa: "line (action ?a) \<in> set (map (line \<circ> action) (bindingsAt ?m (last (keyChain ?a))))"
    by (simp add: simpleBinding_def bindingsAt_def)
  show ?thesis
    using h1 h2 rebinding_is_idempotent [OF h1(1) h2(1), of 1 2]
      rebinding_is_idempotent [OF h1(2) h2(2), of 1 2] pa
    by auto
qed

text \<open>The same holds for Bind itself: a second bind of the same shortcut and action line
  changes nothing and returns what the first returned.\<close>

lemma AddActionToKeyMap_again:
  assumes "AddActionToKeyMap m kb cnt = Some (m', cnt')"
  shows "AddActionToKeyMap m' kb cnt' = Some (m', cnt')"
proof -
  from assms have ne: "keyChain kb \<noteq> []"
    by (auto simp: AddActionToKeyMap_def split: if_splits)
  show ?thesis
  proof (cases "line (action kb) \<in> set (map (line \<circ> action) (bindingsAt m (last (keyChain kb))))")
    case True
    with AddActionToKeyMap_present[OF ne True, of cnt] assms show ?thesis by simp
  next
    case False
    from AddActionToKeyMap_absent[OF ne False, of cnt] assms
    have "bindingsAt m' (last (keyChain kb))
        = bindingsAt m (last (keyChain kb)) @ [kb\<lparr>bindingIndex := cnt + 1\<rparr>]"
      by auto
    then have "line (action kb) \<in> set (map (line \<circ> action) (bindingsAt m' (last (keyChain kb))))"
      by simp
    with ne show ?thesis by (rule AddActionToKeyMap_present)
  qed
qed

lemma Bind_idempotent:
  "Bind mkAction parseKS (snd (Bind mkAction parseKS st keystr ln)) keystr ln
     = Bind mkAction parseKS st keystr ln"
proof (cases "command (mkAction ln) = []")
  case True
  then show ?thesis by (simp add: Bind_def)
next
  case c: False
  show ?thesis
  proof (cases "ParseKeyChain parseKS keystr None")
    case None
    then show ?thesis by (simp add: Bind_def)
  next
    case (Some kc)
    show ?thesis
    proof (cases "kc = []")
      case True
      with Some show ?thesis by (simp add: Bind_def)
    next
      case False
      define ks where "ks = (if command (mkAction ln) \<in> set statefulCommands
                         then SetAnyBit (last kc) else last kc)"
      define kb where "kb = \<lparr>action = mkAction ln, keyChain = butlast kc @ [ks],
                                 boundWith = keystr, bindingIndex = 0\<rparr>"
      have ne: "keyChain kb \<noteq> []" by (simp add: kb_def)
      show ?thesis
      proof (cases "IsKeyCode ks")
        case True
        obtain m cnt where a: "AddActionToKeyMap (codeBindings st) kb (bindingsCount st) = Some (m, cnt)"
          using ne by (cases "AddActionToKeyMap (codeBindings st) kb (bindingsCount st)")
            (auto simp: AddActionToKeyMap_def Let_def split: option.splits if_splits)
        have b: "Bind mkAction parseKS st keystr ln = (True, st\<lparr>codeBindings := m, bindingsCount := cnt\<rparr>)"
          using c Some False True a by (simp add: Bind_def Let_def ks_def[symmetric] kb_def[symmetric])
        show ?thesis
          unfolding b using c Some False True AddActionToKeyMap_again[OF a]
          by (simp add: Bind_def Let_def ks_def[symmetric] kb_def[symmetric])
      next
        case F: False
        obtain m cnt where a: "AddActionToKeyMap (scanBindings st) kb (bindingsCount st) = Some (m, cnt)"
          using ne by (cases "AddActionToKeyMap (scanBindings st) kb (bindingsCount st)")
            (auto simp: AddActionToKeyMap_def Let_def split: option.splits if_splits)
        have b: "Bind mkAction parseKS st keystr ln = (True, st\<lparr>scanBindings := m, bindingsCount := cnt\<rparr>)"
          using c Some False F a by (simp add: Bind_def Let_def ks_def[symmetric] kb_def[symmetric])
        show ?thesis
          unfolding b using c Some False F AddActionToKeyMap_again[OF a]
          by (simp add: Bind_def Let_def ks_def[symmetric] kb_def[symmetric])
      qed
    qed
  qed
qed

subsection \<open>Merging two candidate lists\<close>

lemma innerLoop_segment:
  "innerLoop aB (pre @ As @ Bs) (length pre) (length pre + length As) =
     (case scanA aB As of (toAdd, As') \<Rightarrow> (toAdd, pre @ As' @ Bs, length pre + length As'))"
proof (induction As arbitrary: pre)
  case Nil
  show ?case by (simp add: innerLoop.simps[of aB _ "length pre"] scanA_def)
next
  case (Cons x xs)
  have nth: "(pre @ (x # xs) @ Bs) ! length pre = x" by simp
  show ?case
  proof (cases "sameLine aB x")
    case True
    then show ?thesis
      by (simp add: innerLoop.simps[of aB _ "length pre"] scanA_def sameLine_def)
  next
    case False
    have step: "innerLoop aB (pre @ (x # xs) @ Bs) (length pre) (length pre + length (x # xs))
        = innerLoop aB ((pre @ [x]) @ xs @ Bs) (length (pre @ [x])) (length (pre @ [x]) + length xs)"
      using False by (simp add: innerLoop.simps[of aB _ "length pre"] sameLine_def)
    show ?thesis
      unfolding step Cons.IH[of "pre @ [x]"] using False
      by (auto simp: scanA_def split: option.splits)
  qed
qed

lemma outerLoop_segment:
  "outerLoop (length pre) Bs (pre @ As @ Bacc, length pre + length As) =
     (case dedup Bs (As, Bacc) of (As', Bacc') \<Rightarrow> (pre @ As' @ Bacc', length pre + length As'))"
proof (induction Bs arbitrary: As Bacc)
  case Nil
  show ?case by simp
next
  case (Cons aB Bs)
  obtain toAdd As' where sc: "scanA aB As = (toAdd, As')" by (cases "scanA aB As")
  show ?case
    using Cons.IH[of As' "Bacc @ [aB]"] Cons.IH[of As' Bacc]
    by (simp add: innerLoop_segment sc)
qed

lemma MergeActionListsByTrigger_dedup:
  "MergeActionListsByTrigger A B out =
     out @ (if A = [] then B else if B = [] then A
            else (case dedup B (A, []) of
                    (A', B') \<Rightarrow> inplace_merge compareActionByTriggerOrder A' B'))"
proof -
  have "outerLoop (length out) B (out @ A @ [], length out + length A)
      = (case dedup B (A, []) of (A', B') \<Rightarrow> (out @ A' @ B', length out + length A'))"
    by (rule outerLoop_segment)
  then show ?thesis
    by (auto simp: MergeActionListsByTrigger_def Let_def split: prod.splits)
qed

lemma distinct_map_eq:
  "distinct (map f xs) \<Longrightarrow> x \<in> set xs \<Longrightarrow> y \<in> set xs \<Longrightarrow> f x = f y \<Longrightarrow> x = y"
  by (meson distinct_map inj_onD)

lemma inplace_merge_Nil2: "inplace_merge cmp xs [] = xs"
  by (cases xs) simp_all

lemma eraseFirst_distinct:
  assumes "distinct (map f xs)" and "\<And>x y. P x \<Longrightarrow> P y \<Longrightarrow> f x = f y"
  shows "eraseFirst P xs = filter (\<lambda>x. \<not> P x) xs"
  using assms(1)
proof (induction xs)
  case Nil
  show ?case by simp
next
  case (Cons x xs)
  show ?case
  proof (cases "P x")
    case True
    have "\<not> P y" if y: "y \<in> set xs" for y
    proof
      assume "P y"
      with True have "f x = f y" by (rule assms(2))
      moreover have "f x \<notin> f ` set xs" using Cons.prems by simp
      ultimately show False using y by (metis imageI)
    qed
    then have "filter (\<lambda>x. \<not> P x) xs = xs" by (simp add: filter_id_conv)
    with True show ?thesis by simp
  next
    case False
    with Cons show ?thesis by simp
  qed
qed

lemma keepA_Cons:
  "keepA (b # Bs) a = (\<not> (sameLine b a \<and> bindingIndex b < bindingIndex a) \<and> keepA Bs a)"
  by (simp add: keepA_def)

lemma dedup_eq:
  assumes "distinct (map (line \<circ> action) As)" and "distinct (map (line \<circ> action) Bs)"
  shows "dedup Bs (As, Bacc) = (filter (keepA Bs) As, Bacc @ filter (keepB As) Bs)"
  using assms
proof (induction Bs arbitrary: As Bacc)
  case Nil
  show ?case by (simp add: keepA_def)
next
  case (Cons aB Bs)
  have dB: "distinct (map (line \<circ> action) Bs)"
    using Cons.prems(2) by (simp add: comp_def)
  have "(line \<circ> action) aB \<notin> (line \<circ> action) ` set Bs"
    using Cons.prems(2) by simp
  then have nB: "\<forall>b \<in> set Bs. \<not> sameLine aB b"
    unfolding sameLine_def by (metis comp_apply imageI)
  show ?case
  proof (cases "find (sameLine aB) As")
    case None
    then have no: "\<forall>a \<in> set As. \<not> sameLine aB a" by (simp add: find_None_iff)
    have sc: "scanA aB As = (True, As)" using None by (simp add: scanA_def)
    have kA: "filter (keepA (aB # Bs)) As = filter (keepA Bs) As"
      using no by (intro filter_cong[OF refl]) (auto simp: keepA_def)
    have kB: "keepB As aB" using no by (auto simp: keepB_def)
    show ?thesis
      using Cons.IH[OF Cons.prems(1) dB, of "Bacc @ [aB]"] by (simp add: sc kA kB)
  next
    case (Some x)
    then have x: "x \<in> set As" "sameLine aB x"
      by (auto simp: find_Some_iff)
    have uniq: "\<forall>a \<in> set As. sameLine aB a \<longrightarrow> a = x"
    proof (intro ballI impI)
      fix a assume "a \<in> set As" "sameLine aB a"
      with x have "(line \<circ> action) a = (line \<circ> action) x" by (simp add: sameLine_def)
      with Cons.prems(1) \<open>a \<in> set As\<close> x(1) show "a = x" by (rule distinct_map_eq)
    qed
    show ?thesis
    proof (cases "bindingIndex aB \<ge> bindingIndex x")
      case True
      have sc: "scanA aB As = (False, As)" using Some True by (simp add: scanA_def)
      have kA: "filter (keepA (aB # Bs)) As = filter (keepA Bs) As"
        using uniq True by (intro filter_cong[OF refl]) (auto simp: keepA_def)
      have kB: "\<not> keepB As aB" using x True by (auto simp: keepB_def)
      show ?thesis
        using Cons.IH[OF Cons.prems(1) dB, of Bacc] by (simp add: sc kA kB)
    next
      case False
      let ?As' = "filter (\<lambda>a. \<not> sameLine aB a) As"
      have er: "eraseFirst (sameLine aB) As = ?As'"
        using Cons.prems(1) by (rule eraseFirst_distinct) (simp add: sameLine_def)
      have sc: "scanA aB As = (True, ?As')" using Some False by (simp add: scanA_def er)
      have dA': "distinct (map (line \<circ> action) ?As')"
        using Cons.prems(1) by (rule distinct_map_filter)
      have kA: "filter (keepA (aB # Bs)) As = filter (keepA Bs) ?As'"
      proof -
        have "keepA (aB # Bs) a = (\<not> sameLine aB a \<and> keepA Bs a)" if a: "a \<in> set As" for a
        proof (cases "sameLine aB a")
          case True
          with uniq a have "a = x" by blast
          with False True show ?thesis by (simp add: keepA_Cons)
        next
          case False
          then show ?thesis by (simp add: keepA_Cons)
        qed
        then have "filter (keepA (aB # Bs)) As = filter (\<lambda>a. \<not> sameLine aB a \<and> keepA Bs a) As"
          by (rule filter_cong[OF refl])
        then show ?thesis by (simp add: filter_filter)
      qed
      have kB: "keepB As aB" using uniq False by (auto simp: keepB_def)
      have kB': "filter (keepB ?As') Bs = filter (keepB As) Bs"
      proof (rule filter_cong[OF refl])
        fix b assume b: "b \<in> set Bs"
        have "\<And>a. sameLine b a \<Longrightarrow> \<not> sameLine aB a"
          using nB b by (auto simp: sameLine_def)
        then show "keepB ?As' b = keepB As b"
          by (auto simp: keepB_def)
      qed
      show ?thesis
        using Cons.IH[OF dA' dB, of "Bacc @ [aB]"] by (simp add: sc kA kB kB')
    qed
  qed
qed

lemma MergeActionListsByTrigger_distinct:
  assumes "distinct (map (line \<circ> action) A)" and "distinct (map (line \<circ> action) B)"
  shows "MergeActionListsByTrigger A B out =
     out @ inplace_merge compareActionByTriggerOrder (filter (keepA B) A) (filter (keepB A) B)"
proof (cases "A = []")
  case True
  then show ?thesis by (simp add: MergeActionListsByTrigger_dedup keepB_def)
next
  case False
  show ?thesis
  proof (cases "B = []")
    case True
    with False show ?thesis by (simp add: MergeActionListsByTrigger_dedup keepA_def inplace_merge_Nil2)
  next
    case False
    with \<open>A \<noteq> []\<close> show ?thesis
      by (simp add: MergeActionListsByTrigger_dedup dedup_eq[OF assms])
  qed
qed

lemma filter_inplace_merge_left:
  "filter P ys = [] \<Longrightarrow> filter P (inplace_merge cmp xs ys) = filter P xs"
  by (induction cmp xs ys rule: inplace_merge.induct) (auto split: if_splits)

lemma filter_inplace_merge_right:
  "filter P xs = [] \<Longrightarrow> filter P (inplace_merge cmp xs ys) = filter P ys"
  by (induction cmp xs ys rule: inplace_merge.induct) (auto split: if_splits)

lemma set_inplace_merge: "set (inplace_merge cmp xs ys) = set xs \<union> set ys"
  by (induction cmp xs ys rule: inplace_merge.induct) auto

lemma filter_key_distinct:
  assumes "distinct (map f xs)" and "a \<in> set xs"
  shows "filter (\<lambda>x. f x = f a) (filter Q xs) = (if Q a then [a] else [])"
  using assms
proof (induction xs)
  case Nil
  then show ?case by simp
next
  case (Cons x xs)
  have nx: "f x \<notin> f ` set xs" and dx: "distinct (map f xs)"
    using Cons.prems(1) by simp_all
  show ?case
  proof (cases "x = a")
    case True
    from nx True have "\<forall>y \<in> set xs. f y \<noteq> f a"
      by (metis imageI)
    then have "filter (\<lambda>x. f x = f a) (filter Q xs) = []"
      by (simp add: filter_empty_conv)
    with True show ?thesis by simp
  next
    case False
    with Cons.prems have a: "a \<in> set xs" by simp
    with nx have "f x \<noteq> f a" by (metis imageI)
    then show ?thesis using Cons.IH[OF dx a] by simp
  qed
qed

text \<open>
  C1. Merging two candidate lists, each free of duplicate action lines, each ordered by
  binding index, and both of the same wildcard status: for every action line that occurs
  in both lists, the merged part of the result holds exactly one binding with that line,
  the one with the lower binding index (the binding of the first list when the indices
  are equal); what was in \<open>out\<close> before stays in front.
\<close>

theorem merge_keeps_lower_index_duplicate:
  assumes dA: "distinct (map (line \<circ> action) A)"
    and dB: "distinct (map (line \<circ> action) B)"
    and sA: "sorted (map bindingIndex A)"
    and sB: "sorted (map bindingIndex B)"
    and uni: "\<forall>x \<in> set A \<union> set B. AnyMod (last (keyChain x)) = w"
    and a: "a \<in> set A" and b: "b \<in> set B"
    and ab: "line (action a) = line (action b)"
  shows "take (length out) (MergeActionListsByTrigger A B out) = out \<and>
         filter (\<lambda>x. line (action x) = line (action a))
           (drop (length out) (MergeActionListsByTrigger A B out))
           = [if bindingIndex b < bindingIndex a then b else a]"
proof -
  let ?L = "\<lambda>x. line (action x) = line (action a)"
  let ?A' = "filter (keepA B) A" and ?B' = "filter (keepB A) B"
  have m: "MergeActionListsByTrigger A B out = out @ inplace_merge compareActionByTriggerOrder ?A' ?B'"
    using dA dB by (rule MergeActionListsByTrigger_distinct)
  have ub: "\<forall>y \<in> set B. sameLine y a \<longrightarrow> y = b"
  proof (intro ballI impI)
    fix y assume "y \<in> set B" "sameLine y a"
    with ab have "(line \<circ> action) y = (line \<circ> action) b" by (simp add: sameLine_def)
    with dB \<open>y \<in> set B\<close> b show "y = b" by (rule distinct_map_eq)
  qed
  have ua: "\<forall>y \<in> set A. sameLine b y \<longrightarrow> y = a"
  proof (intro ballI impI)
    fix y assume "y \<in> set A" "sameLine b y"
    with ab have "(line \<circ> action) y = (line \<circ> action) a" by (simp add: sameLine_def)
    with dA \<open>y \<in> set A\<close> a show "y = a" by (rule distinct_map_eq)
  qed
  have sab: "sameLine b a" using ab by (simp add: sameLine_def)
  have kA: "keepA B a = (\<not> bindingIndex b < bindingIndex a)"
    unfolding keepA_def using ub b sab by blast
  have kB: "keepB A b = (bindingIndex b < bindingIndex a)"
    unfolding keepB_def using ua a sab by (metis not_le)
  have fA: "filter ?L ?A' = (if bindingIndex b < bindingIndex a then [] else [a])"
    using filter_key_distinct[of "line \<circ> action" A a "keepA B", OF dA a] by (simp add: kA)
  have "filter (\<lambda>x. (line \<circ> action) x = (line \<circ> action) b) ?B'
      = (if bindingIndex b < bindingIndex a then [b] else [])"
    using filter_key_distinct[of "line \<circ> action" B b "keepB A", OF dB b] by (simp only: kB)
  then have fB: "filter ?L ?B' = (if bindingIndex b < bindingIndex a then [b] else [])"
    by (simp add: ab)
  have "filter ?L (inplace_merge compareActionByTriggerOrder ?A' ?B')
      = [if bindingIndex b < bindingIndex a then b else a]"
  proof (cases "bindingIndex b < bindingIndex a")
    case True
    with fA have "filter ?L ?A' = []" by simp
    then show ?thesis using fB True by (simp add: filter_inplace_merge_right)
  next
    case False
    with fB have "filter ?L ?B' = []" by simp
    then show ?thesis using fA False by (simp add: filter_inplace_merge_left)
  qed
  then show ?thesis by (simp add: m)
qed

lemma listA_listB_hyps:
  "distinct (map (line \<circ> action) listA)" "distinct (map (line \<circ> action) listB)"
  "sorted (map bindingIndex listA)" "sorted (map bindingIndex listB)"
  "\<forall>x \<in> set listA \<union> set listB. AnyMod (last (keyChain x)) = False"
  by (simp_all add: listA_def listB_def simpleBinding_def codeChord_def scanChord_def AnyMod_def)

theorem merge_keeps_lower_index_duplicate_witness:
  "distinct (map (line \<circ> action) listA) \<and> distinct (map (line \<circ> action) listB) \<and>
   sorted (map bindingIndex listA) \<and> sorted (map bindingIndex listB) \<and>
   simpleBinding ''guard'' ''a'' [codeChord 97 0] 4 \<in> set listA \<and>
   simpleBinding ''guard'' ''sc_a'' [scanChord 4 0] 2 \<in> set listB \<and>
   filter (\<lambda>x. line (action x) = ''guard'') (drop 0 (MergeActionListsByTrigger listA listB []))
     = [simpleBinding ''guard'' ''sc_a'' [scanChord 4 0] 2] \<and>
   filter (\<lambda>x. line (action x) = ''attack'') (drop 0 (MergeActionListsByTrigger listA listB []))
     = [simpleBinding ''attack'' ''a'' [codeChord 97 0] 1]"
proof -
  have g: "simpleBinding ''guard'' ''a'' [codeChord 97 0] 4 \<in> set listA"
    "simpleBinding ''guard'' ''sc_a'' [scanChord 4 0] 2 \<in> set listB"
    "line (action (simpleBinding ''guard'' ''a'' [codeChord 97 0] 4))
       = line (action (simpleBinding ''guard'' ''sc_a'' [scanChord 4 0] 2))"
    by (simp_all add: listA_def listB_def simpleBinding_def)
  have a: "simpleBinding ''attack'' ''a'' [codeChord 97 0] 1 \<in> set listA"
    "simpleBinding ''attack'' ''sc_a'' [scanChord 4 0] 3 \<in> set listB"
    "line (action (simpleBinding ''attack'' ''a'' [codeChord 97 0] 1))
       = line (action (simpleBinding ''attack'' ''sc_a'' [scanChord 4 0] 3))"
    by (simp_all add: listA_def listB_def simpleBinding_def)
  show ?thesis
    using listA_listB_hyps g(1,2)
      merge_keeps_lower_index_duplicate [OF listA_listB_hyps g, of "[]"]
      merge_keeps_lower_index_duplicate [OF listA_listB_hyps a, of "[]"]
    by (simp add: simpleBinding_def)
qed

subsection \<open>The invariant of the stores is kept by every mutator\<close>

lemma keyMap_inv_lookup:
  assumes "keyMap_inv cnt m" and "map_of m ks = Some l"
  shows "(\<forall>b \<in> set l. keyChain b \<noteq> [] \<and> last (keyChain b) = ks \<and> bindingIndex b \<le> cnt) \<and>
         sorted (map bindingIndex l) \<and> distinct (map (line \<circ> action) l)"
proof -
  from assms(2) have "(ks, l) \<in> set m" by (rule map_of_SomeD)
  with assms(1) show ?thesis unfolding keyMap_inv_def by fastforce
qed

lemma keyMap_inv_mono: "keyMap_inv cnt m \<Longrightarrow> cnt \<le> cnt' \<Longrightarrow> keyMap_inv cnt' m"
  unfolding keyMap_inv_def by fastforce

lemma keyMap_inv_subset: "keyMap_inv cnt m \<Longrightarrow> set m' \<subseteq> set m \<Longrightarrow> keyMap_inv cnt m'"
  unfolding keyMap_inv_def by blast

lemma keyMap_inv_Nil: "keyMap_inv cnt []"
  by (simp add: keyMap_inv_def)

lemma set_update_subset: "set (AList.update k v al) \<subseteq> insert (k, v) (set al)"
  by (induction al) auto

lemma set_delete_subset: "set (AList.delete k al) \<subseteq> set al"
  by (induction al) auto

lemma keyMap_inv_entry:
  assumes "keyMap_inv cnt m"
    and "\<forall>b \<in> set l. keyChain b \<noteq> [] \<and> last (keyChain b) = ks \<and> bindingIndex b \<le> cnt"
    and "sorted (map bindingIndex l)" and "distinct (map (line \<circ> action) l)"
    and "set m' \<subseteq> insert (ks, l) (set m)"
  shows "keyMap_inv cnt m'"
  unfolding keyMap_inv_def
proof
  fix p assume "p \<in> set m'"
  with assms(5) have "p = (ks, l) \<or> p \<in> set m" by blast
  then show "(\<forall>b \<in> set (snd p). keyChain b \<noteq> [] \<and> last (keyChain b) = fst p \<and> bindingIndex b \<le> cnt) \<and>
        sorted (map bindingIndex (snd p)) \<and> distinct (map (line \<circ> action) (snd p))"
  proof
    assume "p = (ks, l)"
    with assms(2,3,4) show ?thesis by simp
  next
    assume "p \<in> set m"
    with assms(1) show ?thesis unfolding keyMap_inv_def by blast
  qed
qed

lemma AddActionToKeyMap_inv:
  assumes inv: "keyMap_inv cnt m" and add: "AddActionToKeyMap m kb cnt = Some (m', cnt')"
  shows "keyMap_inv cnt' m' \<and> cnt \<le> cnt'"
proof -
  from add have ne: "keyChain kb \<noteq> []"
    by (auto simp: AddActionToKeyMap_def split: if_splits)
  let ?ks = "last (keyChain kb)"
  let ?kb = "kb\<lparr>bindingIndex := cnt + 1\<rparr>"
  have up: "keyMap_inv (cnt + 1) m" using inv by (rule keyMap_inv_mono) simp
  show ?thesis
  proof (cases "map_of m ?ks")
    case None
    with add ne have r: "m' = m @ [(?ks, [?kb])]" "cnt' = cnt + 1"
      by (auto simp: AddActionToKeyMap_def)
    have "keyMap_inv (cnt + 1) m'"
      by (rule keyMap_inv_entry[OF up, of "[?kb]" ?ks]) (use ne r in auto)
    with r show ?thesis by simp
  next
    case (Some l)
    note l = keyMap_inv_lookup[OF inv Some]
    show ?thesis
    proof (cases "\<exists>k \<in> set l. line (action kb) = line (action k)")
      case True
      with add ne Some have "m' = m" "cnt' = cnt"
        by (simp_all add: AddActionToKeyMap_def)
      with inv show ?thesis by simp
    next
      case False
      with add ne Some have r: "m' = AList.update ?ks (l @ [?kb]) m" "cnt' = cnt + 1"
        by (auto simp: AddActionToKeyMap_def)
      have a: "\<forall>b \<in> set (l @ [?kb]). keyChain b \<noteq> [] \<and> last (keyChain b) = ?ks \<and> bindingIndex b \<le> cnt + 1"
        using l ne by fastforce
      have b: "sorted (map bindingIndex (l @ [?kb]))"
        using l by (fastforce simp: sorted_append)
      have "line (action kb) \<notin> (line \<circ> action) ` set l"
        using False by auto
      then have c: "distinct (map (line \<circ> action) (l @ [?kb]))"
        using l by simp
      have "keyMap_inv (cnt + 1) m'"
        using up a b c unfolding r(1) by (rule keyMap_inv_entry) (rule set_update_subset)
      with r show ?thesis by simp
    qed
  qed
qed

lemma store_inv_clearBindings: "store_inv (clearBindings st)"
  by (simp add: store_inv_def clearBindings_def keyMap_inv_Nil)

lemma store_inv_Bind:
  assumes "store_inv st"
  shows "store_inv (snd (Bind mkAction parseKS st keystr ln))"
proof -
  have c: "keyMap_inv (bindingsCount st) (codeBindings st)"
    and s: "keyMap_inv (bindingsCount st) (scanBindings st)"
    using assms by (simp_all add: store_inv_def)
  have code: "store_inv (st\<lparr>codeBindings := m, bindingsCount := cnt\<rparr>)"
    if "AddActionToKeyMap (codeBindings st) kb (bindingsCount st) = Some (m, cnt)" for kb m cnt
    using AddActionToKeyMap_inv[OF c that] keyMap_inv_mono[OF s, of cnt]
    by (simp add: store_inv_def)
  have scan: "store_inv (st\<lparr>scanBindings := m, bindingsCount := cnt\<rparr>)"
    if "AddActionToKeyMap (scanBindings st) kb (bindingsCount st) = Some (m, cnt)" for kb m cnt
    using AddActionToKeyMap_inv[OF s that] keyMap_inv_mono[OF c, of cnt]
    by (simp add: store_inv_def)
  show ?thesis
    using assms code scan
    by (auto simp: Bind_def Let_def split: option.splits)
qed

lemma store_inv_unbindall: "store_inv (unbindall mkAction parseKS st)"
  unfolding unbindall_def by (rule store_inv_Bind) (rule store_inv_clearBindings)

lemma keyMap_inv_filtered:
  assumes "keyMap_inv cnt m" and "map_of m ks = Some l"
    and "set m' \<subseteq> insert (ks, filter P l) (set m)"
  shows "keyMap_inv cnt m'"
proof -
  note l = keyMap_inv_lookup[OF assms(1,2)]
  show ?thesis
    by (rule keyMap_inv_entry[OF assms(1) _ _ _ assms(3)])
       (use l in \<open>simp_all add: sorted_filter distinct_map_filter\<close>)
qed

lemma UnBind_map_inv:
  assumes "keyMap_inv cnt m"
  shows "keyMap_inv cnt (snd (UnBind_map m ks cmd))"
proof (cases "map_of m ks")
  case None
  with assms show ?thesis by (simp add: UnBind_map_def)
next
  case (Some l)
  let ?l' = "filter (\<lambda>b. command (action b) \<noteq> cmd) l"
  have "snd (UnBind_map m ks cmd) = (if ?l' = [] then AList.delete ks m else AList.update ks ?l' m)"
    using Some by (simp add: UnBind_map_def RemoveCommandFromList_eq)
  moreover have "set (if ?l' = [] then AList.delete ks m else AList.update ks ?l' m)
      \<subseteq> insert (ks, ?l') (set m)"
    using set_update_subset[of ks ?l' m] set_delete_subset[of ks m] by auto
  ultimately show ?thesis
    using keyMap_inv_filtered[OF assms Some] by simp
qed

lemma store_inv_UnBind:
  assumes "store_inv st"
  shows "store_inv (snd (UnBind parseKS st keystr cmd))"
  using assms UnBind_map_inv[of "bindingsCount st" "codeBindings st"]
    UnBind_map_inv[of "bindingsCount st" "scanBindings st"]
  by (auto simp: UnBind_def store_inv_def split: option.splits prod.splits)
     (metis snd_conv)+

lemma store_inv_UnBindKeyset:
  assumes "store_inv st"
  shows "store_inv (snd (UnBindKeyset parseKS st keystr))"
  using assms keyMap_inv_subset[OF _ set_delete_subset]
  by (auto simp: UnBindKeyset_def store_inv_def split: option.splits)

lemma RemoveActionFromKeyMap_inv:
  assumes "keyMap_inv cnt m"
  shows "keyMap_inv cnt (snd (RemoveActionFromKeyMap cmd m))"
  unfolding keyMap_inv_def
proof
  fix p assume "p \<in> set (snd (RemoveActionFromKeyMap cmd m))"
  then obtain q where q: "q \<in> set m" "p = (fst q, filter (\<lambda>b. command (action b) \<noteq> cmd) (snd q))"
    by (auto simp: RemoveActionFromKeyMap_eq)
  from assms q(1) have
    "(\<forall>b \<in> set (snd q). keyChain b \<noteq> [] \<and> last (keyChain b) = fst q \<and> bindingIndex b \<le> cnt) \<and>
     sorted (map bindingIndex (snd q)) \<and> distinct (map (line \<circ> action) (snd q))"
    unfolding keyMap_inv_def by blast
  then show "(\<forall>b \<in> set (snd p). keyChain b \<noteq> [] \<and> last (keyChain b) = fst p \<and> bindingIndex b \<le> cnt) \<and>
        sorted (map bindingIndex (snd p)) \<and> distinct (map (line \<circ> action) (snd p))"
    unfolding q(2) by (simp add: sorted_filter distinct_map_filter)
qed

lemma store_inv_UnBindAction:
  assumes "store_inv st"
  shows "store_inv (snd (UnBindAction st cmd))"
  using assms RemoveActionFromKeyMap_inv[of "bindingsCount st" "codeBindings st" cmd]
    RemoveActionFromKeyMap_inv[of "bindingsCount st" "scanBindings st" cmd]
  by (auto simp: UnBindAction_def store_inv_def split: prod.splits)

subsection \<open>The order of a resolution result\<close>

lemma FilterByKeychain_eq:
  "FilterByKeychain fit l kc out = out @ filter (\<lambda>a. fit kc (keyChain a)) l"
  by (induction l arbitrary: out) auto

lemma GetKeyBindingList_ks_inv:
  assumes "store_inv st"
  shows "(\<forall>b \<in> set (GetKeyBindingList_ks st ks forceAny).
            last (keyChain b) = (if forceAny then SetAnyBit ks else ks)) \<and>
         sorted (map bindingIndex (GetKeyBindingList_ks st ks forceAny)) \<and>
         distinct (map (line \<circ> action) (GetKeyBindingList_ks st ks forceAny))"
proof (cases "Key ks < 0")
  case True
  then show ?thesis by (simp add: GetKeyBindingList_ks_def)
next
  case False
  let ?m = "if IsKeyCode ks then codeBindings st else scanBindings st"
  let ?k = "if forceAny then SetAnyBit ks else ks"
  have inv: "keyMap_inv (bindingsCount st) ?m" using assms by (simp add: store_inv_def)
  show ?thesis
  proof (cases "map_of ?m ?k")
    case None
    with False show ?thesis by (simp add: GetKeyBindingList_ks_def Let_def)
  next
    case (Some l)
    have "GetKeyBindingList_ks st ks forceAny = l"
      using False Some by (simp add: GetKeyBindingList_ks_def Let_def)
    with keyMap_inv_lookup[OF inv Some] show ?thesis by simp
  qed
qed

lemma candidates_inv:
  assumes "store_inv st"
  shows "(\<forall>b \<in> set (FilterByKeychain fit (GetKeyBindingList_ks st ks forceAny) kc []).
            last (keyChain b) = (if forceAny then SetAnyBit ks else ks)) \<and>
         sorted (map bindingIndex (FilterByKeychain fit (GetKeyBindingList_ks st ks forceAny) kc [])) \<and>
         distinct (map (line \<circ> action) (FilterByKeychain fit (GetKeyBindingList_ks st ks forceAny) kc []))"
  using GetKeyBindingList_ks_inv[OF assms, of ks forceAny]
  by (simp add: FilterByKeychain_eq sorted_filter distinct_map_filter)

lemma sorted_index_inplace_merge:
  assumes "\<forall>x \<in> set xs \<union> set ys. AnyMod (last (keyChain x)) = w"
    and "sorted (map bindingIndex xs)" and "sorted (map bindingIndex ys)"
  shows "sorted (map bindingIndex (inplace_merge compareActionByTriggerOrder xs ys))"
  using assms
proof (induction compareActionByTriggerOrder xs ys rule: inplace_merge.induct)
  case (1 ys)
  then show ?case by simp
next
  case (2 v va)
  then show ?case by simp
next
  case (3 x xs y ys)
  have cmp: "compareActionByTriggerOrder y x = (bindingIndex y < bindingIndex x)"
    using "3.prems"(1) by (simp add: compareActionByTriggerOrder_def)
  show ?case
  proof (cases "bindingIndex y < bindingIndex x")
    case True
    have "sorted (map bindingIndex (inplace_merge compareActionByTriggerOrder (x # xs) ys))"
      using "3.hyps"(1) "3.prems" True cmp by simp
    moreover have "\<forall>z \<in> set (x # xs) \<union> set ys. bindingIndex y \<le> bindingIndex z"
      using "3.prems"(2,3) True by auto
    ultimately show ?thesis
      using True cmp by (simp add: set_inplace_merge)
  next
    case False
    have "sorted (map bindingIndex (inplace_merge compareActionByTriggerOrder xs (y # ys)))"
      using "3.hyps"(2) "3.prems" False cmp by simp
    moreover have "\<forall>z \<in> set xs \<union> set (y # ys). bindingIndex x \<le> bindingIndex z"
      using "3.prems"(2,3) False by auto
    ultimately show ?thesis
      using False cmp by (simp add: set_inplace_merge)
  qed
qed

lemma merge_uniform:
  assumes dA: "distinct (map (line \<circ> action) A)" and dB: "distinct (map (line \<circ> action) B)"
    and sA: "sorted (map bindingIndex A)" and sB: "sorted (map bindingIndex B)"
    and uni: "\<forall>x \<in> set A \<union> set B. AnyMod (last (keyChain x)) = w"
  shows "\<exists>M. MergeActionListsByTrigger A B out = out @ M \<and> sorted (map bindingIndex M) \<and>
           (\<forall>x \<in> set M. AnyMod (last (keyChain x)) = w)"
proof -
  let ?A' = "filter (keepA B) A" and ?B' = "filter (keepB A) B"
  let ?M = "inplace_merge compareActionByTriggerOrder ?A' ?B'"
  have m: "MergeActionListsByTrigger A B out = out @ ?M"
    using dA dB by (rule MergeActionListsByTrigger_distinct)
  have u': "\<forall>x \<in> set ?A' \<union> set ?B'. AnyMod (last (keyChain x)) = w"
    using uni by auto
  have "sorted (map bindingIndex ?M)"
    using u' sorted_filter[OF sA] sorted_filter[OF sB] by (rule sorted_index_inplace_merge)
  moreover have "\<forall>x \<in> set ?M. AnyMod (last (keyChain x)) = w"
    using u' by (simp add: set_inplace_merge)
  ultimately show ?thesis using m by blast
qed

lemma exact_then_any_ordered:
  assumes "sorted (map bindingIndex M1)" and "\<forall>x \<in> set M1. AnyMod (last (keyChain x)) = False"
    and "sorted (map bindingIndex M2)" and "\<forall>x \<in> set M2. AnyMod (last (keyChain x)) = True"
  shows "sorted_wrt triggerOrder (M1 @ M2)"
proof -
  have 1: "sorted_wrt triggerOrder M1"
  proof -
    have "sorted_wrt (\<lambda>x y. bindingIndex x \<le> bindingIndex y) M1"
      using assms(1) by (simp add: sorted_map)
    then show ?thesis
      by (rule sorted_wrt_mono_rel[rotated]) (use assms(2) in \<open>simp add: triggerOrder_def\<close>)
  qed
  have 2: "sorted_wrt triggerOrder M2"
  proof -
    have "sorted_wrt (\<lambda>x y. bindingIndex x \<le> bindingIndex y) M2"
      using assms(3) by (simp add: sorted_map)
    then show ?thesis
      by (rule sorted_wrt_mono_rel[rotated]) (use assms(4) in \<open>simp add: triggerOrder_def\<close>)
  qed
  have 3: "\<forall>x \<in> set M1. \<forall>y \<in> set M2. triggerOrder x y"
    using assms(2,4) by (simp add: triggerOrder_def)
  from 1 2 3 show ?thesis by (simp add: sorted_wrt_append)
qed

text \<open>
  C2. For every store that satisfies the invariant of the mutators and every pair of
  non-empty live chains, the resolution returns a list in which no wildcard binding
  precedes an exact one, and among bindings of equal wildcard status the binding indices
  do not decrease.
\<close>

theorem resolution_is_trigger_ordered:
  assumes inv: "store_inv st" and kc: "kc \<noteq> []" and sc: "sc \<noteq> []"
  shows "\<exists>res. GetKeyBindingList_chains fit st kc sc = Some res \<and>
           (\<forall>i j. i < j \<and> j < length res \<longrightarrow>
              (AnyMod (last (keyChain (res ! i))) \<longrightarrow> AnyMod (last (keyChain (res ! j)))) \<and>
              (AnyMod (last (keyChain (res ! i))) = AnyMod (last (keyChain (res ! j)))
                 \<longrightarrow> bindingIndex (res ! i) \<le> bindingIndex (res ! j)))"
proof -
  let ?kList = "if \<not> AnyMod (last kc)
                then FilterByKeychain fit (GetKeyBindingList_ks st (last kc) False) kc [] else []"
  let ?sList = "if \<not> AnyMod (last sc)
                then FilterByKeychain fit (GetKeyBindingList_ks st (last sc) False) sc [] else []"
  let ?kAny = "FilterByKeychain fit (GetKeyBindingList_ks st (last kc) True) kc []"
  let ?sAny = "FilterByKeychain fit (GetKeyBindingList_ks st (last sc) True) sc []"
  have res: "GetKeyBindingList_chains fit st kc sc
      = Some (MergeActionListsByTrigger ?kAny ?sAny (MergeActionListsByTrigger ?kList ?sList []))"
    using kc sc by (simp add: GetKeyBindingList_chains_def Let_def)
  note ck = candidates_inv[OF inv, of fit "last kc" False kc]
  note cs = candidates_inv[OF inv, of fit "last sc" False sc]
  note cka = candidates_inv[OF inv, of fit "last kc" True kc]
  note csa = candidates_inv[OF inv, of fit "last sc" True sc]
  have k1: "distinct (map (line \<circ> action) ?kList)" "sorted (map bindingIndex ?kList)"
    "\<forall>x \<in> set ?kList. AnyMod (last (keyChain x)) = False"
    using ck by auto
  have s1: "distinct (map (line \<circ> action) ?sList)" "sorted (map bindingIndex ?sList)"
    "\<forall>x \<in> set ?sList. AnyMod (last (keyChain x)) = False"
    using cs by auto
  have u1: "\<forall>x \<in> set ?kList \<union> set ?sList. AnyMod (last (keyChain x)) = False"
    using k1(3) s1(3) by blast
  have u2: "\<forall>x \<in> set ?kAny \<union> set ?sAny. AnyMod (last (keyChain x)) = True"
    using cka csa by (auto simp: AnyMod_SetAnyBit)
  from merge_uniform[OF k1(1) s1(1) k1(2) s1(2) u1, of "[]"]
  obtain M1 where M1: "MergeActionListsByTrigger ?kList ?sList [] = M1"
    "sorted (map bindingIndex M1)" "\<forall>x \<in> set M1. AnyMod (last (keyChain x)) = False"
    by auto
  from merge_uniform[OF _ _ _ _ u2, of M1] cka csa
  obtain M2 where M2: "MergeActionListsByTrigger ?kAny ?sAny M1 = M1 @ M2"
    "sorted (map bindingIndex M2)" "\<forall>x \<in> set M2. AnyMod (last (keyChain x)) = True"
    by auto
  have "sorted_wrt triggerOrder (M1 @ M2)"
    using M1(2,3) M2(2,3) by (rule exact_then_any_ordered)
  then have "\<forall>i j. i < j \<and> j < length (M1 @ M2) \<longrightarrow> triggerOrder ((M1 @ M2) ! i) ((M1 @ M2) ! j)"
    by (simp add: sorted_wrt_iff_nth_less)
  then have "\<forall>i j. i < j \<and> j < length (M1 @ M2) \<longrightarrow>
              (AnyMod (last (keyChain ((M1 @ M2) ! i))) \<longrightarrow> AnyMod (last (keyChain ((M1 @ M2) ! j)))) \<and>
              (AnyMod (last (keyChain ((M1 @ M2) ! i))) = AnyMod (last (keyChain ((M1 @ M2) ! j)))
                 \<longrightarrow> bindingIndex ((M1 @ M2) ! i) \<le> bindingIndex ((M1 @ M2) ! j))"
    unfolding triggerOrder_def .
  then show ?thesis
    unfolding res M1(1) M2(1) by blast
qed

lemma store_inv_storeB: "store_inv storeB"
  by (simp add: store_inv_def keyMap_inv_def storeB_def simpleBinding_def)

lemma resolve_storeB:
  "GetKeyBindingList_chains fitChords storeB [codeChord 97 0] [scanChord 4 0]
     = Some [simpleBinding ''attack'' ''a'' [codeChord 97 0] 1,
             simpleBinding ''guard'' ''a'' [codeChord 97 0] 4,
             simpleBinding ''select'' ''Any+a'' [codeChord 97 16] 2]"
  by code_simp

theorem resolution_is_trigger_ordered_witness:
  "store_inv storeB \<and> [codeChord 97 0] \<noteq> [] \<and> [scanChord 4 0] \<noteq> [] \<and>
   GetKeyBindingList_chains fitChords storeB [codeChord 97 0] [scanChord 4 0]
     = Some [simpleBinding ''attack'' ''a'' [codeChord 97 0] 1,
             simpleBinding ''guard'' ''a'' [codeChord 97 0] 4,
             simpleBinding ''select'' ''Any+a'' [codeChord 97 16] 2] \<and>
   \<not> AnyMod (last (keyChain (simpleBinding ''guard'' ''a'' [codeChord 97 0] 4))) \<and>
   AnyMod (last (keyChain (simpleBinding ''select'' ''Any+a'' [codeChord 97 16] 2))) \<and>
   bindingIndex (simpleBinding ''attack'' ''a'' [codeChord 97 0] 1)
     \<le> bindingIndex (simpleBinding ''guard'' ''a'' [codeChord 97 0] 4)"
  using store_inv_storeB resolve_storeB
    resolution_is_trigger_ordered [OF store_inv_storeB, of "[codeChord 97 0]" "[scanChord 4 0]" fitChords]
  by (simp add: simpleBinding_def AnyMod_def codeChord_def KS_ANYMOD_def)

subsection \<open>Stateful commands\<close>

lemma Bind_success:
  assumes "Bind mkAction parseKS st keystr ln = (True, st')"
    and "ParseKeyChain parseKS keystr None = Some kc"
    and "ks = (if command (mkAction ln) \<in> set statefulCommands then SetAnyBit (last kc) else last kc)"
    and "kb = \<lparr>action = mkAction ln, keyChain = butlast kc @ [ks], boundWith = keystr, bindingIndex = 0\<rparr>"
  shows "\<exists>m cnt. AddActionToKeyMap (bindingsFor st ks) kb (bindingsCount st) = Some (m, cnt) \<and>
           bindingsFor st' ks = m"
  using assms
  by (auto simp: Bind_def Let_def bindingsFor_def split: if_splits option.splits)

text \<open>
  C7. After a successful bind of a stateful command, the list under the wildcard variant
  of the parsed trigger chord holds a binding with the action line whose trigger chord is
  that wildcard variant (Any bit set), whatever modifiers were written; after a
  successful bind of any other command, the binding is under the trigger chord as parsed.
\<close>

theorem stateful_bind_forces_any:
  assumes inv: "store_inv st"
    and ok: "Bind mkAction parseKS st keystr ln = (True, st')"
    and p: "ParseKeyChain parseKS keystr None = Some kc"
  shows "(command (mkAction ln) \<in> set statefulCommands \<longrightarrow>
            (\<exists>b \<in> set (bindingsAt (bindingsFor st' (SetAnyBit (last kc))) (SetAnyBit (last kc))).
               line (action b) = line (mkAction ln) \<and>
               last (keyChain b) = SetAnyBit (last kc) \<and> AnyMod (last (keyChain b)))) \<and>
         (command (mkAction ln) \<notin> set statefulCommands \<longrightarrow>
            (\<exists>b \<in> set (bindingsAt (bindingsFor st' (last kc)) (last kc)).
               line (action b) = line (mkAction ln) \<and> last (keyChain b) = last kc))"
proof -
  define ks where "ks = (if command (mkAction ln) \<in> set statefulCommands then SetAnyBit (last kc) else last kc)"
  define kb where "kb = \<lparr>action = mkAction ln, keyChain = butlast kc @ [ks], boundWith = keystr, bindingIndex = 0\<rparr>"
  from Bind_success[OF ok p ks_def kb_def]
  obtain m cnt where add: "AddActionToKeyMap (bindingsFor st ks) kb (bindingsCount st) = Some (m, cnt)"
    and m: "bindingsFor st' ks = m" by blast
  have ne: "keyChain kb \<noteq> []" and lk: "last (keyChain kb) = ks" and ln: "line (action kb) = line (mkAction ln)"
    by (simp_all add: kb_def)
  have kinv: "keyMap_inv (bindingsCount st) (bindingsFor st ks)"
    using inv by (simp add: store_inv_def bindingsFor_def)
  have ex: "\<exists>b \<in> set (bindingsAt m ks). line (action b) = line (mkAction ln) \<and> last (keyChain b) = ks"
  proof (cases "line (action kb) \<in> set (map (line \<circ> action) (bindingsAt (bindingsFor st ks) (last (keyChain kb))))")
    case True
    then obtain b where b: "b \<in> set (bindingsAt (bindingsFor st ks) ks)" "line (action b) = line (action kb)"
      unfolding lk by auto
    from b(1) obtain l where l: "map_of (bindingsFor st ks) ks = Some l" "b \<in> set l"
      by (cases "map_of (bindingsFor st ks) ks") (auto simp: bindingsAt_def)
    have "last (keyChain b) = ks" using keyMap_inv_lookup[OF kinv l(1)] l(2) by blast
    moreover have "m = bindingsFor st ks"
      using AddActionToKeyMap_present[OF ne True, of "bindingsCount st"] add by simp
    ultimately show ?thesis using b ln by auto
  next
    case False
    from AddActionToKeyMap_absent[OF ne False, of "bindingsCount st"] add
    have "bindingsAt m ks = bindingsAt (bindingsFor st ks) ks @ [kb\<lparr>bindingIndex := bindingsCount st + 1\<rparr>]"
      by (simp add: lk)
    then show ?thesis using lk ln by simp
  qed
  show ?thesis
    using ex m by (auto simp: ks_def AnyMod_SetAnyBit)
qed

lemma store_inv_empty: "store_inv \<lparr>codeBindings = [], scanBindings = [], bindingsCount = 0\<rparr>"
  by (simp add: store_inv_def keyMap_inv_def)

theorem stateful_bind_forces_any_witness:
  "store_inv \<lparr>codeBindings = [], scanBindings = [], bindingsCount = 0\<rparr> \<and>
   Bind parseAction parseChord \<lparr>codeBindings = [], scanBindings = [], bindingsCount = 0\<rparr>
       ''Shift+up'' ''moveforward''
     = (True,
        \<lparr>codeBindings =
           [(codeChord 273 16,
             [\<lparr>action = \<lparr>command = ''moveforward'', extra = [], line = ''moveforward'',
                          rawline = ''moveforward''\<rparr>,
               keyChain = [codeChord 273 16], boundWith = ''Shift+up'', bindingIndex = 1\<rparr>])],
         scanBindings = [], bindingsCount = 1\<rparr>) \<and>
   ParseKeyChain parseChord ''Shift+up'' None = Some [codeChord 273 8] \<and>
   command (parseAction ''moveforward'') \<in> set statefulCommands \<and>
   SetAnyBit (last [codeChord 273 8]) = codeChord 273 16 \<and>
   AnyMod (codeChord 273 16)"
proof -
  have b: "Bind parseAction parseChord \<lparr>codeBindings = [], scanBindings = [], bindingsCount = 0\<rparr>
       ''Shift+up'' ''moveforward''
     = (True,
        \<lparr>codeBindings =
           [(codeChord 273 16,
             [\<lparr>action = \<lparr>command = ''moveforward'', extra = [], line = ''moveforward'',
                          rawline = ''moveforward''\<rparr>,
               keyChain = [codeChord 273 16], boundWith = ''Shift+up'', bindingIndex = 1\<rparr>])],
         scanBindings = [], bindingsCount = 1\<rparr>)"
    by code_simp
  have p: "ParseKeyChain parseChord ''Shift+up'' None = Some [codeChord 273 8]"
    by code_simp
  have c: "command (parseAction ''moveforward'') \<in> set statefulCommands"
    by code_simp
  have s: "SetAnyBit (last [codeChord 273 8]) = codeChord 273 16"
    by code_simp
  show ?thesis
    using store_inv_empty b p c s stateful_bind_forces_any [OF store_inv_empty b p]
    by (auto simp: AnyMod_def codeChord_def KS_ANYMOD_def)
qed

subsection \<open>The baseline binding of unbindall\<close>

lemma ParseKeyChain_enter:
  assumes "parseKS ''enter'' = Some ks"
  shows "ParseKeyChain parseKS ''enter'' None = Some [ks]"
proof -
  have "ParseSingleChain parseKS ''enter'' [] = Some [ks]"
    by (simp add: ParseSingleChain.simps[of _ "''enter''"] notComma_def cstring_def assms)
  then show ?thesis
    by (simp add: ParseKeyChain.simps[of _ "''enter''"])
qed

text \<open>
  C6. Provided the chord parser reads "enter" as an unmodified key code k that is not
  negative, the action constructor reads "chat" as the command chat, and a chain of that
  one chord fits itself: after unbindall the key-code store holds exactly the binding of
  enter to chat, with binding index 1 (the counter was reset to zero before the bind),
  the scan-code store is empty, and resolving key code k with no modifiers returns
  exactly that binding, for every scan code.
\<close>

theorem unbindall_keeps_enter_chat:
  assumes act: "command (mkAction ''chat'') = ''chat''"
    and parse: "parseKS ''enter'' = Some \<lparr>key = k, modifiers = 0, keyType = KSKeyCode\<rparr>"
    and k: "0 \<le> k"
    and fit: "fit [\<lparr>key = k, modifiers = 0, keyType = KSKeyCode\<rparr>]
                  [\<lparr>key = k, modifiers = 0, keyType = KSKeyCode\<rparr>]"
  shows "unbindall mkAction parseKS st =
           st\<lparr>codeBindings :=
                 [(\<lparr>key = k, modifiers = 0, keyType = KSKeyCode\<rparr>,
                   [\<lparr>action = mkAction ''chat'',
                     keyChain = [\<lparr>key = k, modifiers = 0, keyType = KSKeyCode\<rparr>],
                     boundWith = ''enter'', bindingIndex = 1\<rparr>])],
              scanBindings := [], bindingsCount := 1\<rparr> \<and>
         GetKeyBindingList_codes fit (unbindall mkAction parseKS st) k scanCode 0 =
           Some [\<lparr>action = mkAction ''chat'',
                  keyChain = [\<lparr>key = k, modifiers = 0, keyType = KSKeyCode\<rparr>],
                  boundWith = ''enter'', bindingIndex = 1\<rparr>]"
proof -
  let ?enter = "\<lparr>key = k, modifiers = 0, keyType = KSKeyCode\<rparr>"
  let ?kb = "\<lparr>action = mkAction ''chat'', keyChain = [?enter], boundWith = ''enter'', bindingIndex = 1\<rparr>"
  have ns: "''chat'' \<notin> set statefulCommands" by (simp add: statefulCommands_def)
  have u: "unbindall mkAction parseKS st =
      st\<lparr>codeBindings := [(?enter, [?kb])], scanBindings := [], bindingsCount := 1\<rparr>"
    using ns by (simp add: unbindall_def Bind_def act ParseKeyChain_enter[of parseKS, OF parse] IsKeyCode_def
        AddActionToKeyMap_def clearBindings_def Let_def)
  have na: "\<not> AnyMod ?enter" "\<not> AnyMod \<lparr>key = scanCode, modifiers = 0, keyType = KSScanCode\<rparr>"
    by (simp_all add: AnyMod_def)
  have ne: "SetAnyBit ?enter \<noteq> ?enter"
    by (simp add: SetAnyBit_def KS_ANYMOD_def)
  have "GetKeyBindingList_codes fit
          (st\<lparr>codeBindings := [(?enter, [?kb])], scanBindings := [], bindingsCount := 1\<rparr>) k scanCode 0
        = Some [?kb]"
    using k fit na ne
    by (simp add: GetKeyBindingList_codes_def GetKeyBindingList_chains_def GetKeyBindingList_ks_def
        Key_def IsKeyCode_def MergeActionListsByTrigger_def Let_def)
  with u show ?thesis by simp
qed

theorem unbindall_keeps_enter_chat_witness:
  "command (parseAction ''chat'') = ''chat'' \<and>
   parseChord ''enter'' = Some \<lparr>key = 13, modifiers = 0, keyType = KSKeyCode\<rparr> \<and>
   fitChords [\<lparr>key = 13, modifiers = 0, keyType = KSKeyCode\<rparr>]
             [\<lparr>key = 13, modifiers = 0, keyType = KSKeyCode\<rparr>] \<and>
   GetKeyBindingList_codes fitChords (unbindall parseAction parseChord storeA) 13 40 0
     = Some [\<lparr>action = parseAction ''chat'',
              keyChain = [\<lparr>key = 13, modifiers = 0, keyType = KSKeyCode\<rparr>],
              boundWith = ''enter'', bindingIndex = 1\<rparr>]"
proof -
  have a: "command (parseAction ''chat'') = ''chat''"
    by code_simp
  have p: "parseChord ''enter'' = Some \<lparr>key = 13, modifiers = 0, keyType = KSKeyCode\<rparr>"
    by code_simp
  have f: "fitChords [\<lparr>key = 13, modifiers = 0, keyType = KSKeyCode\<rparr>]
                     [\<lparr>key = 13, modifiers = 0, keyType = KSKeyCode\<rparr>]"
    by (simp add: fitChords_def chordMatches_def)
  have "GetKeyBindingList_codes fitChords (unbindall parseAction parseChord storeA) 13 40 0
     = Some [\<lparr>action = parseAction ''chat'',
              keyChain = [\<lparr>key = 13, modifiers = 0, keyType = KSKeyCode\<rparr>],
              boundWith = ''enter'', bindingIndex = 1\<rparr>]"
  proof -
    have k: "(0::int) \<le> 13" by simp
    from unbindall_keeps_enter_chat [of parseAction parseChord 13 fitChords storeA 40, OF a p k f]
    show ?thesis by (rule conjunct2)
  qed
  with a p f show ?thesis by blast
qed

subsection \<open>Commas in a shortcut text\<close>






























end
